theory Spec2Isabelle
  imports Main "HOL-Library.Char_ord" "HOL-Library.List_Lexorder" "HOL-Library.AList"
begin

section \<open>Python strings\<close>

text \<open>
  A Python \<open>str\<close> is modelled as a HOL \<open>string\<close> of ASCII characters. \<open>str.lower\<close> maps
  \<open>A\<close>..\<open>Z\<close> to \<open>a\<close>..\<open>z\<close> and leaves every other character alone; the regular-expression
  classes \<open>\\d\<close>, \<open>\\s\<close> and \<open>\\w\<close> are the ASCII ones (digits; code points 9..13, 28..32;
  letters, digits and underscore). Strings compare lexicographically by code point, which
  is the order of \<open>HOL-Library.List_Lexorder\<close> over \<open>HOL-Library.Char_ord\<close>.
\<close>

definition lower_char :: "char \<Rightarrow> char" where
  "lower_char ch =
     (case map_of (zip ''ABCDEFGHIJKLMNOPQRSTUVWXYZ'' ''abcdefghijklmnopqrstuvwxyz'') ch of
        Some l \<Rightarrow> l
      | None \<Rightarrow> ch)"

definition lower :: "string \<Rightarrow> string" where
  "lower s = map lower_char s"

definition is_digit :: "char \<Rightarrow> bool" where
  "is_digit ch = (ch \<in> set ''0123456789'')"

definition is_space :: "char \<Rightarrow> bool" where
  "is_space ch = (let n = (of_char ch :: nat) in (9 \<le> n \<and> n \<le> 13) \<or> (28 \<le> n \<and> n \<le> 32))"

definition is_word :: "char \<Rightarrow> bool" where
  "is_word ch =
     (ch \<in> set ''0123456789ABCDEFGHIJKLMNOPQRSTUVWXYZ_abcdefghijklmnopqrstuvwxyz'')"

text \<open>\<open>s.startswith(p)\<close>\<close>

fun startswith :: "string \<Rightarrow> string \<Rightarrow> bool" where
  "startswith s [] = True"
| "startswith [] (p # ps) = False"
| "startswith (ch # s) (p # ps) = (ch = p \<and> startswith s ps)"

text \<open>\<open>needle in s\<close>: the needle occurs in \<open>s\<close> as a contiguous substring.\<close>

fun str_in :: "string \<Rightarrow> string \<Rightarrow> bool" where
  "str_in needle [] = (needle = [])"
| "str_in needle (ch # s) = (startswith (ch # s) needle \<or> str_in needle s)"

text \<open>\<open>s.strip()\<close>: whitespace removed at both ends.\<close>

definition strip :: "string \<Rightarrow> string" where
  "strip s = rev (dropWhile is_space (rev (dropWhile is_space s)))"

text \<open>\<open>sep.join(xs)\<close>\<close>

fun join :: "string \<Rightarrow> string list \<Rightarrow> string" where
  "join sep [] = []"
| "join sep [x] = x"
| "join sep (x # y # ys) = x @ sep @ join sep (y # ys)"

text \<open>\<open>str(v or "")\<close> for a JSON field that is absent, null or a string.\<close>

definition str_or_empty :: "string option \<Rightarrow> string" where
  "str_or_empty v = (case v of None \<Rightarrow> [] | Some s \<Rightarrow> s)"


section \<open>Downloader: baseline constraints\<close>

text \<open>
  The baseline document of the collector. Each text field is \<open>None\<close> when the key is
  absent or null.
\<close>

record baseline =
  OsName :: "string option"
  DisplayVersion :: "string option"
  Architecture :: "string option"
  Build :: "string option"
  IsAdmin :: bool
  LcuMonthId :: "string option"
  MsrcLatestMonthId :: "string option"

record catalog_candidate =
  update_id :: string
  title :: string
  products :: string
  classification :: string
  last_updated :: string
  version :: string
  size_text :: string

record baseline_constraints =
  windows_gen :: string
  display_version :: string
  build_major :: string
  catalog_arch :: string

definition build_constraints :: "baseline \<Rightarrow> baseline_constraints" where
  "build_constraints b =
     (let os_name = lower (str_or_empty (OsName b));
          dv = strip (str_or_empty (DisplayVersion b));
          arch = lower (str_or_empty (Architecture b));
          build = str_or_empty (Build b);
          bmajor = (if build \<noteq> [] then takeWhile (\<lambda>ch. ch \<noteq> CHR ''.'') build else []);
          gen = (if str_in ''windows 11'' os_name then ''windows 11''
                 else if str_in ''windows 10'' os_name then ''windows 10''
                 else []);
          carch = (if arch = ''x64'' \<or> arch = ''amd64'' then ''x64''
                   else if str_in ''arm64'' arch then ''arm64''
                   else if arch = ''x86'' \<or> arch = ''32-bit'' then ''x86''
                   else ''x64'')
      in \<lparr>windows_gen = gen, display_version = dv, build_major = bmajor, catalog_arch = carch\<rparr>)"


section \<open>Downloader: candidate scoring\<close>

text \<open>
  \<open>re.search(r"\\b\\d{2}h[12]\\b", title)\<close>. The matcher carries the character before the
  current position: the pattern starts with a digit and ends with a digit, so each
  \<open>\\b\<close> holds exactly when the neighbouring character is missing or not a word character.
\<close>

fun yyh_here :: "char option \<Rightarrow> string \<Rightarrow> bool" where
  "yyh_here prev (d1 # d2 # h # n # rest) =
     ((case prev of None \<Rightarrow> True | Some p \<Rightarrow> \<not> is_word p)
      \<and> is_digit d1 \<and> is_digit d2 \<and> h = CHR ''h'' \<and> (n = CHR ''1'' \<or> n = CHR ''2'')
      \<and> (case rest of [] \<Rightarrow> True | r # _ \<Rightarrow> \<not> is_word r))"
| "yyh_here prev _ = False"

fun yyh_from :: "char option \<Rightarrow> string \<Rightarrow> bool" where
  "yyh_from prev [] = False"
| "yyh_from prev (ch # s) = (yyh_here prev (ch # s) \<or> yyh_from (Some ch) s)"

definition search_yyh :: "string \<Rightarrow> bool" where
  "search_yyh s = yyh_from None s"

text \<open>
  \<open>re.search(r"\\(\\s*(\\d{5})\\.", title)\<close>, returning group 1 of the leftmost match.
  Whitespace and digits are disjoint, so the greedy \<open>\\s*\<close> never has to give anything back.
\<close>

fun build_here :: "string \<Rightarrow> string option" where
  "build_here [] = None"
| "build_here (ch # s) =
     (if ch = CHR ''('' then
        (case dropWhile is_space s of
           d1 # d2 # d3 # d4 # d5 # dot # _ \<Rightarrow>
             if is_digit d1 \<and> is_digit d2 \<and> is_digit d3 \<and> is_digit d4 \<and> is_digit d5
                \<and> dot = CHR ''.''
             then Some [d1, d2, d3, d4, d5] else None
         | _ \<Rightarrow> None)
      else None)"

fun search_build :: "string \<Rightarrow> string option" where
  "search_build [] = None"
| "search_build (ch # s) =
     (case build_here (ch # s) of Some g \<Rightarrow> Some g | None \<Rightarrow> search_build s)"

text \<open>
  \<open>score_candidate\<close>: every \<open>return -10_000\<close> of the source is a branch that leaves
  with \<open>-10000\<close>; the running score is threaded through the remaining rules.
\<close>

definition score_arch :: "string \<Rightarrow> string \<Rightarrow> int option" where
  "score_arch arch t =
     (if arch = ''x64'' then
        (if str_in ''arm64-based'' t \<or> str_in ''x86-based'' t \<or> str_in ''32-bit'' t then None
         else if str_in ''x64-based'' t then Some 25 else Some 0)
      else if arch = ''arm64'' then
        (if str_in ''x64-based'' t \<or> str_in ''x86-based'' t \<or> str_in ''32-bit'' t then None
         else if str_in ''arm64-based'' t then Some 25 else Some 0)
      else if arch = ''x86'' then
        (if str_in ''x64-based'' t \<or> str_in ''arm64-based'' t then None
         else if str_in ''x86-based'' t \<or> str_in ''32-bit'' t then Some 25 else Some 0)
      else Some 0)"

definition score_display_version :: "string \<Rightarrow> string \<Rightarrow> int" where
  "score_display_version dv t =
     (if dv \<noteq> [] then
        (if str_in dv t then 25 else 0) + (if search_yyh t \<and> \<not> str_in dv t then - 15 else 0)
      else 0)"

definition score_build_major :: "string \<Rightarrow> string \<Rightarrow> int" where
  "score_build_major bm t =
     (if bm \<noteq> [] then
        (case search_build t of
           Some g \<Rightarrow> if g = bm then 10 else - 5
         | None \<Rightarrow> 0)
      else 0)"

definition score_candidate :: "catalog_candidate \<Rightarrow> string \<Rightarrow> baseline_constraints \<Rightarrow> int" where
  "score_candidate candidate kb_id c =
     (let t = lower (title candidate) in
      if \<not> str_in (lower kb_id) t then - 10000
      else
        let score = (50 :: int);
            score = (if windows_gen c \<noteq> [] \<and> str_in (windows_gen c) t then score + 40 else score)
        in
        if windows_gen c \<noteq> [] \<and> windows_gen c = ''windows 10'' \<and> str_in ''windows 11'' t
        then - 10000
        else if windows_gen c \<noteq> [] \<and> windows_gen c = ''windows 11'' \<and> str_in ''windows 10'' t
        then - 10000
        else if startswith (windows_gen c) ''windows'' \<and> str_in ''server'' t
        then - 10000
        else
          (case score_arch (catalog_arch c) t of
             None \<Rightarrow> - 10000
           | Some a \<Rightarrow>
               score + a
                 + score_display_version (lower (display_version c)) t
                 + score_build_major (build_major c) t))"


section \<open>Downloader: candidate selection\<close>

datatype select_error = NoMatch | AmbiguousMatch int

text \<open>
  \<open>list.sort(key=..., reverse=True)\<close> is stable: elements with equal keys keep their
  order. That is the stable ascending sort on the negated key.
\<close>

definition sort_by_score_desc :: "(int \<times> 'a) list \<Rightarrow> (int \<times> 'a) list" where
  "sort_by_score_desc scored = sort_key (\<lambda>x. - fst x) scored"

text \<open>Lines 254 to 265 of the selector, on the list of scored candidates.\<close>

definition select_scored :: "(int \<times> 'a) list \<Rightarrow> select_error + 'a" where
  "select_scored scored0 =
     (let scored = filter (\<lambda>(s, c). s \<ge> 0) scored0 in
      if scored = [] then Inl NoMatch
      else
        (case sort_by_score_desc scored of
           [] \<Rightarrow> Inl NoMatch
         | (best_score, best) # _ \<Rightarrow>
             if best_score < 90 then Inl (AmbiguousMatch best_score) else Inr best))"

definition choose_best_candidate ::
  "catalog_candidate list \<Rightarrow> string \<Rightarrow> baseline_constraints \<Rightarrow> select_error + catalog_candidate"
where
  "choose_best_candidate candidates kb_id constraints =
     select_scored (map (\<lambda>c. (score_candidate c kb_id constraints, c)) candidates)"


section \<open>Scanner: time window\<close>

datatype error = RuntimeError string | ValueError

text \<open>
  A \<open>datetime\<close> on the first day of a month, at midnight UTC, is the pair (year, month).
  The constructor raises \<open>ValueError\<close> outside years 1..9999 and months 1..12.
\<close>

type_synonym month_date = "nat \<times> nat"

definition datetime_valid :: "nat \<Rightarrow> nat \<Rightarrow> bool" where
  "datetime_valid year month = (1 \<le> year \<and> year \<le> 9999 \<and> 1 \<le> month \<and> month \<le> 12)"

definition dt_less :: "month_date \<Rightarrow> month_date \<Rightarrow> bool" where
  "dt_less a b = (fst a < fst b \<or> (fst a = fst b \<and> snd a < snd b))"

definition month_abbr :: "string list" where
  "month_abbr = [''Jan'', ''Feb'', ''Mar'', ''Apr'', ''May'', ''Jun'',
                 ''Jul'', ''Aug'', ''Sep'', ''Oct'', ''Nov'', ''Dec'']"

definition digit_val :: "char \<Rightarrow> nat" where
  "digit_val ch = of_char ch - 48"

definition digit_char :: "nat \<Rightarrow> char" where
  "digit_char n = char_of (48 + n mod 10)"

text \<open>
  \<open>datetime.strptime(s, "%Y-%b")\<close>: four digits, a dash and an abbreviated month name of
  the C locale, matched without regard to case; anything else, and the year 0, raise
  \<open>ValueError\<close> (here \<open>None\<close>).
\<close>

definition month_of_abbr :: "string \<Rightarrow> nat option" where
  "month_of_abbr s =
     (case filter (\<lambda>(i, name). lower name = lower s) (zip [1 ..< 13] month_abbr) of
        [] \<Rightarrow> None
      | (i, _) # _ \<Rightarrow> Some i)"

definition strptime_Yb :: "string \<Rightarrow> month_date option" where
  "strptime_Yb s =
     (case s of
        y1 # y2 # y3 # y4 # dash # rest \<Rightarrow>
          if is_digit y1 \<and> is_digit y2 \<and> is_digit y3 \<and> is_digit y4 \<and> dash = CHR ''-'' then
            (let year = 1000 * digit_val y1 + 100 * digit_val y2 + 10 * digit_val y3 + digit_val y4
             in case month_of_abbr rest of
                  None \<Rightarrow> None
                | Some month \<Rightarrow> if datetime_valid year month then Some (year, month) else None)
          else None
      | _ \<Rightarrow> None)"

text \<open>
  \<open>d.strftime("%Y-%b")\<close>, the year written with four digits (the C runtime of Windows,
  the platform the scanner runs on, pads the year with zeros).
\<close>

definition strftime_Yb :: "month_date \<Rightarrow> string" where
  "strftime_Yb d =
     (let year = fst d in
      [digit_char (year div 1000), digit_char (year div 100), digit_char (year div 10),
       digit_char year] @ ''-'' @ month_abbr ! (snd d - 1))"

text \<open>
  The \<open>while True\<close> loop of \<open>build_month_ids_from_lcu\<close>, with its local variables
  \<open>year\<close>, \<open>month\<close> and \<open>month_ids\<close> as arguments.
\<close>

function month_loop ::
  "month_date \<Rightarrow> int \<Rightarrow> nat \<Rightarrow> nat \<Rightarrow> string list \<Rightarrow> error + string list"
where
  "month_loop end_d max_months year month month_ids =
     (if \<not> datetime_valid year month then Inl ValueError
      else if dt_less end_d (year, month) \<or> int (length month_ids) \<ge> max_months
      then Inr month_ids
      else if (year, month) = end_d then Inr (month_ids @ [strftime_Yb (year, month)])
      else if month + 1 = 13
      then month_loop end_d max_months (year + 1) 1 (month_ids @ [strftime_Yb (year, month)])
      else month_loop end_d max_months year (month + 1) (month_ids @ [strftime_Yb (year, month)]))"
  by pat_completeness auto
termination
  by (relation "measure (\<lambda>(end_d, max_months, year, month, month_ids).
                  (12 * fst end_d + snd end_d + 12) - (12 * year + month))")
     (auto simp: datetime_valid_def dt_less_def)

text \<open>
  \<open>build_month_ids_from_lcu\<close>. The clock is a parameter: \<open>now\<close> is the month of
  \<open>datetime.now(UTC)\<close>, used only when the baseline has no \<open>MsrcLatestMonthId\<close>.
\<close>

definition build_month_ids_from_lcu ::
  "month_date \<Rightarrow> baseline \<Rightarrow> int \<Rightarrow> error + string list"
where
  "build_month_ids_from_lcu now b max_months =
     (if \<not> IsAdmin b then Inl (RuntimeError ''Baseline collected without administrative privileges'')
      else if str_or_empty (LcuMonthId b) = []
      then Inl (RuntimeError ''Baseline did not provide LcuMonthId'')
      else
        (case (if str_or_empty (MsrcLatestMonthId b) \<noteq> []
               then strptime_Yb (str_or_empty (MsrcLatestMonthId b)) else Some now) of
           None \<Rightarrow> Inl ValueError
         | Some end_d \<Rightarrow>
             (case strptime_Yb (str_or_empty (LcuMonthId b)) of
                None \<Rightarrow> Inl ValueError
              | Some start0 \<Rightarrow>
                  (let start = (if dt_less end_d start0 then end_d else start0)
                   in month_loop end_d max_months (fst start) (snd start) []))))"


section \<open>Scanner: record merge\<close>

text \<open>
  A partial record of the adapter: the identifier and the three arrays, each \<open>None\<close>
  when the key is absent or null.
\<close>

record adapter_entry =
  in_KB :: "string option"
  in_Months :: "string list option"
  in_Cves :: "string list option"
  in_Supersedes :: "string list option"

text \<open>
  A canonical record of the accumulator. It is created by \<open>merge_kb_entries\<close> with the
  identifier and three empty lists; \<open>UpdateType\<close> is absent until the scan sets it.
\<close>

record kb_entry =
  KB :: string
  Months :: "string list"
  Cves :: "string list"
  Supersedes :: "string list"
  UpdateType :: "string option"

text \<open>\<open>entry.get(field) or []\<close>\<close>

definition get_or_empty :: "string list option \<Rightarrow> string list" where
  "get_or_empty v = (case v of None \<Rightarrow> [] | Some xs \<Rightarrow> xs)"

text \<open>
  The innermost loop: \<open>for value in ...: if value and value not in target[field]:
  target[field].append(value)\<close>.
\<close>

definition merge_values :: "string list \<Rightarrow> string list \<Rightarrow> string list" where
  "merge_values target_field values =
     fold (\<lambda>v acc. if v \<noteq> [] \<and> v \<notin> set acc then acc @ [v] else acc) values target_field"

text \<open>
  One iteration of the loop over \<open>incoming\<close>. The accumulator is the dictionary
  \<open>existing\<close>, in insertion order; \<open>setdefault\<close> followed by the in-place appends is
  the update of the entry under \<open>kb_id\<close>.
\<close>

definition merge_entry :: "adapter_entry \<Rightarrow> (string \<times> kb_entry) list \<Rightarrow> (string \<times> kb_entry) list" where
  "merge_entry entry existing =
     (case in_KB entry of
        None \<Rightarrow> existing
      | Some kb_id \<Rightarrow>
          if kb_id = [] then existing
          else
            (let target = (case map_of existing kb_id of
                             Some t \<Rightarrow> t
                           | None \<Rightarrow> \<lparr>KB = kb_id, Months = [], Cves = [], Supersedes = [],
                                       UpdateType = None\<rparr>)
             in AList.update kb_id
                  (target\<lparr>Months := merge_values (Months target) (get_or_empty (in_Months entry)),
                          Cves := merge_values (Cves target) (get_or_empty (in_Cves entry)),
                          Supersedes := merge_values (Supersedes target)
                                          (get_or_empty (in_Supersedes entry))\<rparr>)
                  existing))"

definition merge_kb_entries ::
  "(string \<times> kb_entry) list \<Rightarrow> adapter_entry list \<Rightarrow> (string \<times> kb_entry) list"
where
  "merge_kb_entries existing incoming = fold merge_entry incoming existing"

text \<open>
  The finalisation in \<open>main\<close>: each array becomes \<open>sorted(set(...))\<close> and the
  classification is derived from the superseded list.
\<close>

definition finalize_entry :: "kb_entry \<Rightarrow> kb_entry" where
  "finalize_entry e =
     (let months = sort (remdups (Months e));
          cves = sort (remdups (Cves e));
          supersedes = sort (remdups (Supersedes e))
      in e\<lparr>Months := months, Cves := cves, Supersedes := supersedes,
           UpdateType := Some (if supersedes \<noteq> [] then ''Superseding'' else ''Standalone'')\<rparr>)"

definition finalize_entries :: "(string \<times> kb_entry) list \<Rightarrow> kb_entry list" where
  "finalize_entries merged = map finalize_entry (map snd merged)"


section \<open>Scanner: supersedence\<close>

text \<open>
  \<open>supersedes_map\<close> is a dictionary from an identifier to the set of identifiers it
  supersedes; it is kept as an association list whose values are duplicate-free lists,
  because the traversal iterates over them.
\<close>

definition add_edge :: "string \<Rightarrow> string \<Rightarrow> (string \<times> string list) list \<Rightarrow> (string \<times> string list) list" where
  "add_edge kb_id old sm =
     AList.update kb_id (List.insert old (case map_of sm kb_id of None \<Rightarrow> [] | Some s \<Rightarrow> s)) sm"

definition build_supersedes_map :: "kb_entry list \<Rightarrow> (string \<times> string list) list" where
  "build_supersedes_map kb_entries =
     fold (\<lambda>entry sm. fold (add_edge (KB entry)) (Supersedes entry) sm) kb_entries []"

definition supersedes_get :: "(string \<times> string list) list \<Rightarrow> string \<Rightarrow> string list" where
  "supersedes_get sm current = (case map_of sm current of None \<Rightarrow> [] | Some s \<Rightarrow> s)"

text \<open>
  The state of one root's walk: the stack, the set \<open>seen\<close>, and the two results
  \<open>logical_present\<close> and \<open>superseded_by\<close> that all walks share.
\<close>

type_synonym walk_state = "string list \<times> string set \<times> string set \<times> (string \<rightharpoonup> string set)"

text \<open>The body of \<open>for old in supersedes_map.get(current, set())\<close>.\<close>

fun visit :: "string \<Rightarrow> string \<Rightarrow> walk_state \<Rightarrow> walk_state" where
  "visit root old (stack, seen, logical_present, superseded_by) =
     (let logical_present = insert old logical_present;
          superseded_by = superseded_by(old \<mapsto>
            insert root (case superseded_by old of None \<Rightarrow> {} | Some s \<Rightarrow> s))
      in if old \<notin> seen
         then (stack @ [old], insert old seen, logical_present, superseded_by)
         else (stack, seen, logical_present, superseded_by))"

definition nodes :: "(string \<times> string list) list \<Rightarrow> string set" where
  "nodes sm = (\<Union>(k, olds) \<in> set sm. set olds)"

lemma fold_visit_measure:
  "set olds \<subseteq> U \<Longrightarrow> finite U \<Longrightarrow>
   (case fold (visit root) olds (stack, seen, lp, sb) of
      (stack', seen', lp', sb') \<Rightarrow> length stack' + card (U - seen') = length stack + card (U - seen))"
proof (induction olds arbitrary: stack seen lp sb)
  case Nil
  then show ?case by simp
next
  case (Cons old olds)
  have sub: "set olds \<subseteq> U" and mem: "old \<in> U" using Cons.prems(1) by auto
  show ?case
  proof (cases "old \<in> seen")
    case True
    then show ?thesis using Cons.IH[OF sub Cons.prems(2)] by simp
  next
    case False
    have fin: "finite (U - seen)" using Cons.prems(2) by simp
    have "U - insert old seen = (U - seen) - {old}" by auto
    moreover have "old \<in> U - seen" using False mem by simp
    ultimately have c: "card (U - insert old seen) + 1 = card (U - seen)"
      using fin by (metis Suc_eq_plus1 card_Suc_Diff1)
    have "case fold (visit root) olds
                 (stack @ [old], insert old seen, insert old lp,
                  sb(old \<mapsto> insert root (case sb old of None \<Rightarrow> {} | Some s \<Rightarrow> s))) of
            (stack', seen', lp', sb') \<Rightarrow>
              length stack' + card (U - seen')
                = length (stack @ [old]) + card (U - insert old seen)"
      by (rule Cons.IH[OF sub Cons.prems(2)])
    then show ?thesis using False c by (auto split: prod.splits)
  qed
qed

lemma supersedes_get_nodes: "set (supersedes_get sm current) \<subseteq> nodes sm"
proof (cases "map_of sm current")
  case None
  then show ?thesis by (simp add: supersedes_get_def)
next
  case (Some olds)
  then have "(current, olds) \<in> set sm" by (rule map_of_SomeD)
  then show ?thesis using Some by (auto simp: supersedes_get_def nodes_def)
qed

text \<open>The \<open>while stack\<close> loop: pop the last element, visit what it supersedes.\<close>

function walk :: "(string \<times> string list) list \<Rightarrow> string \<Rightarrow> walk_state \<Rightarrow> string set \<times> (string \<rightharpoonup> string set)" where
  "walk sm root (stack, seen, logical_present, superseded_by) =
     (if stack = [] then (logical_present, superseded_by)
      else walk sm root
             (fold (visit root) (supersedes_get sm (last stack))
                (butlast stack, seen, logical_present, superseded_by)))"
  by pat_completeness auto
termination
proof (relation "measure (\<lambda>(sm, root, stack, seen, lp, sb). length stack + card (nodes sm - seen))")
  show "wf (measure (\<lambda>(sm, root, stack, seen, lp, sb). length stack + card (nodes sm - seen)))"
    by simp
next
  fix sm :: "(string \<times> string list) list" and root :: string and stack :: "string list"
    and seen lp :: "string set" and sb :: "string \<rightharpoonup> string set"
  assume ne: "stack \<noteq> []"
  have fin: "finite (nodes sm)" by (auto simp: nodes_def)
  obtain stack' seen' lp' sb' where
    f: "fold (visit root) (supersedes_get sm (last stack)) (butlast stack, seen, lp, sb)
          = (stack', seen', lp', sb')"
    by (metis prod_cases4)
  have "set (supersedes_get sm (last stack)) \<subseteq> nodes sm" by (rule supersedes_get_nodes)
  from fold_visit_measure[OF this fin, where root = root and stack = "butlast stack"
      and seen = seen and lp = lp and sb = sb] f
  have "length stack' + card (nodes sm - seen') = length (butlast stack) + card (nodes sm - seen)"
    by simp
  with ne have "length stack' + card (nodes sm - seen') < length stack + card (nodes sm - seen)"
    by (cases stack rule: rev_cases) simp_all
  then show "((sm, root, fold (visit root) (supersedes_get sm (last stack)) (butlast stack, seen, lp, sb)),
              (sm, root, stack, seen, lp, sb))
             \<in> measure (\<lambda>(sm, root, stack, seen, lp, sb). length stack + card (nodes sm - seen))"
    by (simp add: f)
qed

text \<open>The loop \<open>for root in installed_kbs\<close>: one walk per root, sharing the two results.\<close>

definition walk_all ::
  "(string \<times> string list) list \<Rightarrow> string list \<Rightarrow> string set \<times> (string \<rightharpoonup> string set)
   \<Rightarrow> string set \<times> (string \<rightharpoonup> string set)"
where
  "walk_all supersedes_map installed_kbs acc =
     fold (\<lambda>root (logical_present, superseded_by).
             walk supersedes_map root ([root], {root}, logical_present, superseded_by))
       installed_kbs acc"

text \<open>
  \<open>compute_supersedence\<close>. The set \<open>installed_kbs\<close> is given as the list of its elements
  in iteration order; \<open>logical_present\<close> starts as a copy of it and \<open>superseded_by\<close>
  empty, and the result sorts each set of roots.
\<close>

definition compute_supersedence ::
  "kb_entry list \<Rightarrow> string list \<Rightarrow> string set \<times> (string \<rightharpoonup> string list)"
where
  "compute_supersedence kb_entries installed_kbs =
     (let supersedes_map = build_supersedes_map kb_entries;
          (logical_present, superseded_by) =
             walk_all supersedes_map installed_kbs (set installed_kbs, Map.empty)
      in (logical_present, \<lambda>k. map_option sorted_list_of_set (superseded_by k)))"

text \<open>
  \<open>expected = {e["KB"] for e in kb_entries}\<close> and
  \<open>missing = sorted(expected - logical_present)\<close> of \<open>main\<close>.
\<close>

definition missing_kbs :: "kb_entry list \<Rightarrow> string set \<Rightarrow> string list" where
  "missing_kbs kb_entries logical_present =
     sort (remdups (filter (\<lambda>k. k \<notin> logical_present) (map KB kb_entries)))"


section \<open>Scanner: correlation table\<close>

text \<open>
  \<open>print_kb_table\<close> prints lines; the model returns them. The cells of a row are computed
  first and formatted afterwards (\<open>f"{cell:<width}"\<close> pads on the right).
\<close>

definition ljust :: "nat \<Rightarrow> string \<Rightarrow> string" where
  "ljust width s = s @ replicate (width - length s) (CHR '' '')"

definition build_kb_index :: "kb_entry list \<Rightarrow> (string \<times> kb_entry) list" where
  "build_kb_index kb_entries =
     fold (\<lambda>entry kb_index. if KB entry \<noteq> [] then AList.update (KB entry) entry kb_index
                             else kb_index) kb_entries []"

definition all_kbs :: "(string \<times> kb_entry) list \<Rightarrow> string list \<Rightarrow> string set \<Rightarrow> string list" where
  "all_kbs kb_index installed_kbs logical_present_kbs =
     sorted_list_of_set (set (map fst kb_index) \<union> set installed_kbs \<union> logical_present_kbs)"

definition kb_status :: "string list \<Rightarrow> string set \<Rightarrow> (string \<rightharpoonup> string list) \<Rightarrow> string \<Rightarrow> string" where
  "kb_status installed_kbs logical_present_kbs superseded_by kb_id =
     (if kb_id \<in> set installed_kbs then ''Installed''
      else if kb_id \<in> logical_present_kbs then
        (let by = (case superseded_by kb_id of None \<Rightarrow> [] | Some roots \<Rightarrow> roots)
         in if by \<noteq> [] then ''Superseded ('' @ join '', '' by @ '')'' else ''Superseded'')
      else ''Missing'')"

type_synonym table_row = "string \<times> string \<times> string \<times> string \<times> string"

definition kb_rows ::
  "(string \<times> kb_entry) list \<Rightarrow> string list \<Rightarrow> string set \<Rightarrow> (string \<rightharpoonup> string list) \<Rightarrow> string
   \<Rightarrow> table_row list"
where
  "kb_rows kb_index installed_kbs logical_present_kbs superseded_by kb_id =
     (let entry = (case map_of kb_index kb_id of
                     Some e \<Rightarrow> e
                   | None \<Rightarrow> \<lparr>KB = kb_id, Months = [], Cves = [], Supersedes = [],
                               UpdateType = Some ''Unmapped''\<rparr>);
          months = Months entry;
          cves = Cves entry;
          update_type = (case UpdateType entry of None \<Rightarrow> [] | Some u \<Rightarrow> u);
          status = kb_status installed_kbs logical_present_kbs superseded_by kb_id;
          months = (if months = [] then [[]] else months);
          cves = (if cves = [] then [[]] else cves);
          height = max (length months) (length cves)
      in map (\<lambda>i. (if i = 0 then kb_id else [],
                    if i = 0 then update_type else [],
                    if i = 0 then status else [],
                    if i < length months then months ! i else [],
                    if i < length cves then cves ! i else [])) [0 ..< height])"

fun format_row :: "table_row \<Rightarrow> string" where
  "format_row (kb_cell, type_cell, status_cell, month_cell, cve_cell) =
     ljust 11 kb_cell @ '' '' @ ljust 12 type_cell @ '' '' @ ljust 40 status_cell @ '' ''
       @ ljust 20 month_cell @ '' '' @ cve_cell"

definition print_kb_table ::
  "kb_entry list \<Rightarrow> string list \<Rightarrow> string set \<Rightarrow> (string \<rightharpoonup> string list) \<Rightarrow> string list"
where
  "print_kb_table kb_entries installed_kbs logical_present_kbs superseded_by =
     (let kb_index = build_kb_index kb_entries in
      [''=== Correlation ==='',
       format_row (''KB'', ''Type'', ''Status'', ''Months'', ''CVEs''),
       replicate 110 (CHR ''-'')]
      @ concat (map (\<lambda>kb_id.
                  map format_row (kb_rows kb_index installed_kbs logical_present_kbs superseded_by kb_id)
                  @ [replicate 110 (CHR ''-'')])
               (all_kbs kb_index installed_kbs logical_present_kbs)))"


section \<open>Notions used in the statements\<close>

text \<open>The relation "newer supersedes older" that \<open>supersedes_map\<close> stores.\<close>

definition supersedes_rel :: "(string \<times> string list) list \<Rightarrow> (string \<times> string) set" where
  "supersedes_rel sm = {(k, old). old \<in> set (supersedes_get sm k)}"

text \<open>
  The invariant of one walk: the root is seen, the stack holds seen nodes only, every seen
  node but the root is logically present, and every seen node that has left the stack has
  all its successors seen.
\<close>

fun walk_inv :: "(string \<times> string) set \<Rightarrow> string \<Rightarrow> walk_state \<Rightarrow> bool" where
  "walk_inv E root (stack, seen, lp, sb) =
     (root \<in> seen \<and> set stack \<subseteq> seen \<and> seen \<subseteq> insert root lp
      \<and> (\<forall>x \<in> seen - set stack. \<forall>y. (x, y) \<in> E \<longrightarrow> y \<in> seen))"

text \<open>The supersedes edges that the records declare.\<close>

definition supersedes_edges :: "kb_entry list \<Rightarrow> (string \<times> string) set" where
  "supersedes_edges kb_entries =
     {(k, old). \<exists>e \<in> set kb_entries. KB e = k \<and> old \<in> set (Supersedes e)}"

text \<open>
  Months are counted from year 0: \<open>month_index\<close> numbers them, \<open>month_of_index\<close> is
  its inverse on valid dates, so consecutive indices are consecutive calendar months.
\<close>

definition month_index :: "month_date \<Rightarrow> nat" where
  "month_index d = 12 * fst d + (snd d - 1)"

definition month_of_index :: "nat \<Rightarrow> month_date" where
  "month_of_index i = (i div 12, i mod 12 + 1)"

text \<open>
  Notions used to state the merge properties: the list a field holds under an identifier
  (empty when the identifier has no record), the non-empty values a batch brings for an
  identifier, a partial record with a usable identifier, a partial record without its empty
  values, and an accumulator whose lists are duplicate-free.
\<close>

definition field_of :: "(kb_entry \<Rightarrow> string list) \<Rightarrow> (string \<times> kb_entry) list \<Rightarrow> string \<Rightarrow> string list" where
  "field_of f acc k = (case map_of acc k of None \<Rightarrow> [] | Some r \<Rightarrow> f r)"

definition merged_in :: "(adapter_entry \<Rightarrow> string list option) \<Rightarrow> string \<Rightarrow> adapter_entry list \<Rightarrow> string set" where
  "merged_in sel k incoming =
     {v. v \<noteq> [] \<and> k \<noteq> [] \<and> (\<exists>e \<in> set incoming. in_KB e = Some k \<and> v \<in> set (get_or_empty (sel e)))}"

definition has_id :: "adapter_entry \<Rightarrow> bool" where
  "has_id e = (case in_KB e of None \<Rightarrow> False | Some kb_id \<Rightarrow> kb_id \<noteq> [])"

definition drop_empty_values :: "adapter_entry \<Rightarrow> adapter_entry" where
  "drop_empty_values e =
     e\<lparr>in_Months := Some (filter (\<lambda>v. v \<noteq> []) (get_or_empty (in_Months e))),
       in_Cves := Some (filter (\<lambda>v. v \<noteq> []) (get_or_empty (in_Cves e))),
       in_Supersedes := Some (filter (\<lambda>v. v \<noteq> []) (get_or_empty (in_Supersedes e)))\<rparr>"

definition fields_distinct :: "(string \<times> kb_entry) list \<Rightarrow> bool" where
  "fields_distinct acc =
     (\<forall>k r. map_of acc k = Some r \<longrightarrow> distinct (Months r) \<and> distinct (Cves r) \<and> distinct (Supersedes r))"


section \<open>Properties of the candidate scorer\<close>

lemma score_display_version_range:
  "- 15 \<le> score_display_version dv t \<and> score_display_version dv t \<le> 25"
  by (simp add: score_display_version_def)

lemma score_build_major_range:
  "- 5 \<le> score_build_major bm t \<and> score_build_major bm t \<le> 10"
  by (simp add: score_build_major_def split: option.split)

lemma score_arch_range: "score_arch a t = Some v \<Longrightarrow> 0 \<le> v \<and> v \<le> 25"
  by (auto simp: score_arch_def split: if_splits)

lemma score_candidate_cases:
  "score_candidate x kb c = - 10000 \<or>
   (\<exists>a. score_arch (catalog_arch c) (lower (title x)) = Some a \<and>
        score_candidate x kb c =
          50 + (if windows_gen c \<noteq> [] \<and> str_in (windows_gen c) (lower (title x)) then 40 else 0) + a
           + score_display_version (lower (display_version c)) (lower (title x))
           + score_build_major (build_major c) (lower (title x)))"
  by (simp add: score_candidate_def Let_def split: option.split)

lemma score_range: "score_candidate x kb c = - 10000 \<or> 30 \<le> score_candidate x kb c"
proof -
  let ?t = "lower (title x)"
  from score_candidate_cases[of x kb c] show ?thesis
  proof
    assume "\<exists>a. score_arch (catalog_arch c) ?t = Some a \<and>
        score_candidate x kb c =
          50 + (if windows_gen c \<noteq> [] \<and> str_in (windows_gen c) ?t then 40 else 0) + a
           + score_display_version (lower (display_version c)) ?t
           + score_build_major (build_major c) ?t"
    then obtain a where a: "score_arch (catalog_arch c) ?t = Some a"
      and s: "score_candidate x kb c =
          50 + (if windows_gen c \<noteq> [] \<and> str_in (windows_gen c) ?t then 40 else 0) + a
           + score_display_version (lower (display_version c)) ?t
           + score_build_major (build_major c) ?t" by blast
    have "30 \<le> score_candidate x kb c"
      using score_arch_range[OF a] score_display_version_range[of "lower (display_version c)" ?t]
        score_build_major_range[of "build_major c" ?t]
      by (simp add: s)
    then show ?thesis ..
  qed simp
qed


text \<open>
  Claim C3, as amended. A title that does not contain the target identifier (both
  lower-cased) scores exactly \<open>-10000\<close>, whatever the other fields and constraints are.
  A title that contains the identifier, the known generation and the matching architecture
  marker, and for which no hard exclusion fires (it carries no label of the other
  generation, no server marker and no competing architecture marker), with no
  display-version and no build-number evidence, scores exactly \<open>115 = 50 + 40 + 25\<close>.
\<close>

theorem score_candidate_exclusion_and_full_match:
  "(\<not> str_in (lower kb_id) (lower (title x)) \<longrightarrow> score_candidate x kb_id c = - 10000)
   \<and> (str_in (lower kb_id) (lower (title x))
        \<and> windows_gen c \<noteq> [] \<and> str_in (windows_gen c) (lower (title x))
        \<and> \<not> (windows_gen c = ''windows 10'' \<and> str_in ''windows 11'' (lower (title x)))
        \<and> \<not> (windows_gen c = ''windows 11'' \<and> str_in ''windows 10'' (lower (title x)))
        \<and> \<not> (startswith (windows_gen c) ''windows'' \<and> str_in ''server'' (lower (title x)))
        \<and> (catalog_arch c = ''x64'' \<and> str_in ''x64-based'' (lower (title x))
              \<and> \<not> str_in ''arm64-based'' (lower (title x))
              \<and> \<not> str_in ''x86-based'' (lower (title x))
              \<and> \<not> str_in ''32-bit'' (lower (title x))
            \<or> catalog_arch c = ''arm64'' \<and> str_in ''arm64-based'' (lower (title x))
              \<and> \<not> str_in ''x64-based'' (lower (title x))
              \<and> \<not> str_in ''x86-based'' (lower (title x))
              \<and> \<not> str_in ''32-bit'' (lower (title x))
            \<or> catalog_arch c = ''x86''
              \<and> (str_in ''x86-based'' (lower (title x)) \<or> str_in ''32-bit'' (lower (title x)))
              \<and> \<not> str_in ''x64-based'' (lower (title x))
              \<and> \<not> str_in ''arm64-based'' (lower (title x)))
        \<and> (display_version c = []
             \<or> \<not> str_in (lower (display_version c)) (lower (title x))
               \<and> \<not> search_yyh (lower (title x)))
        \<and> (build_major c = [] \<or> search_build (lower (title x)) = None)
       \<longrightarrow> score_candidate x kb_id c = 115)"
proof (intro conjI impI)
  assume "\<not> str_in (lower kb_id) (lower (title x))"
  then show "score_candidate x kb_id c = - 10000" by (simp add: score_candidate_def)
next
  let ?t = "lower (title x)"
  assume h: "str_in (lower kb_id) ?t
        \<and> windows_gen c \<noteq> [] \<and> str_in (windows_gen c) ?t
        \<and> \<not> (windows_gen c = ''windows 10'' \<and> str_in ''windows 11'' ?t)
        \<and> \<not> (windows_gen c = ''windows 11'' \<and> str_in ''windows 10'' ?t)
        \<and> \<not> (startswith (windows_gen c) ''windows'' \<and> str_in ''server'' ?t)
        \<and> (catalog_arch c = ''x64'' \<and> str_in ''x64-based'' ?t
              \<and> \<not> str_in ''arm64-based'' ?t \<and> \<not> str_in ''x86-based'' ?t \<and> \<not> str_in ''32-bit'' ?t
            \<or> catalog_arch c = ''arm64'' \<and> str_in ''arm64-based'' ?t
              \<and> \<not> str_in ''x64-based'' ?t \<and> \<not> str_in ''x86-based'' ?t \<and> \<not> str_in ''32-bit'' ?t
            \<or> catalog_arch c = ''x86'' \<and> (str_in ''x86-based'' ?t \<or> str_in ''32-bit'' ?t)
              \<and> \<not> str_in ''x64-based'' ?t \<and> \<not> str_in ''arm64-based'' ?t)
        \<and> (display_version c = []
             \<or> \<not> str_in (lower (display_version c)) ?t \<and> \<not> search_yyh ?t)
        \<and> (build_major c = [] \<or> search_build ?t = None)"
  then have arch: "score_arch (catalog_arch c) ?t = Some 25"
    by (auto simp: score_arch_def)
  have dv: "score_display_version (lower (display_version c)) ?t = 0"
    using h by (auto simp: score_display_version_def lower_def)
  have bm: "score_build_major (build_major c) ?t = 0"
    using h by (auto simp: score_build_major_def)
  show "score_candidate x kb_id c = 115"
    using h by (simp add: score_candidate_def Let_def arch dv bm)
qed


theorem score_candidate_exclusion_and_full_match_witness:
  "score_candidate
     \<lparr>update_id = ''u'',
       title = ''2024-01 Cumulative Update for Windows 10 Version 22H2 for x64-based Systems (KB5034122)'',
       products = [], classification = [], last_updated = [], version = [], size_text = []\<rparr>
     ''KB5034122''
     \<lparr>windows_gen = ''windows 10'', display_version = [], build_major = [], catalog_arch = ''x64''\<rparr>
   = 115
   \<and> score_candidate
     \<lparr>update_id = ''u'',
       title = ''2024-01 Cumulative Update for Windows 10 Version 22H2 for x64-based Systems (KB5034122)'',
       products = [], classification = [], last_updated = [], version = [], size_text = []\<rparr>
     ''KB5034441''
     \<lparr>windows_gen = ''windows 10'', display_version = [], build_major = [], catalog_arch = ''x64''\<rparr>
   = - 10000"
  (is "score_candidate ?x ?kb ?c = 115 \<and> score_candidate ?x ?kb' ?c = - 10000")
proof -
  let ?t = "lower (title ?x)"
  have h: "str_in (lower ?kb) ?t
        \<and> windows_gen ?c \<noteq> [] \<and> str_in (windows_gen ?c) ?t
        \<and> \<not> (windows_gen ?c = ''windows 10'' \<and> str_in ''windows 11'' ?t)
        \<and> \<not> (windows_gen ?c = ''windows 11'' \<and> str_in ''windows 10'' ?t)
        \<and> \<not> (startswith (windows_gen ?c) ''windows'' \<and> str_in ''server'' ?t)
        \<and> (catalog_arch ?c = ''x64'' \<and> str_in ''x64-based'' ?t
              \<and> \<not> str_in ''arm64-based'' ?t \<and> \<not> str_in ''x86-based'' ?t \<and> \<not> str_in ''32-bit'' ?t
            \<or> catalog_arch ?c = ''arm64'' \<and> str_in ''arm64-based'' ?t
              \<and> \<not> str_in ''x64-based'' ?t \<and> \<not> str_in ''x86-based'' ?t \<and> \<not> str_in ''32-bit'' ?t
            \<or> catalog_arch ?c = ''x86'' \<and> (str_in ''x86-based'' ?t \<or> str_in ''32-bit'' ?t)
              \<and> \<not> str_in ''x64-based'' ?t \<and> \<not> str_in ''arm64-based'' ?t)
        \<and> (display_version ?c = []
             \<or> \<not> str_in (lower (display_version ?c)) ?t \<and> \<not> search_yyh ?t)
        \<and> (build_major ?c = [] \<or> search_build ?t = None)"
    by code_simp
  have n: "\<not> str_in (lower ?kb') ?t" by code_simp
  have a: "score_candidate ?x ?kb ?c = 115"
    by (rule score_candidate_exclusion_and_full_match[THEN conjunct2, THEN mp, OF h])
  have b: "score_candidate ?x ?kb' ?c = - 10000"
    by (rule score_candidate_exclusion_and_full_match[THEN conjunct1, THEN mp, OF n])
  show ?thesis using a b by (rule conjI)
qed

text \<open>
  Claim C3 as the specification states it fails: each of these three titles contains the
  target identifier, the known generation \<open>windows 10\<close> and the matching marker
  \<open>x64-based\<close>, with no display version and no build number known, and yet scores
  \<open>-10000\<close>, because a server marker, the label of the other generation or a competing
  architecture marker excludes it.
\<close>

theorem score_candidate_full_match_counterexample:
  "score_candidate
     \<lparr>update_id = ''u'', title = ''Update for Windows 10 Server for x64-based Systems (KB5034122)'',
       products = [], classification = [], last_updated = [], version = [], size_text = []\<rparr>
     ''KB5034122''
     \<lparr>windows_gen = ''windows 10'', display_version = [], build_major = [], catalog_arch = ''x64''\<rparr>
   = - 10000
   \<and> score_candidate
     \<lparr>update_id = ''u'', title = ''Update for Windows 10 and Windows 11 for x64-based Systems (KB5034122)'',
       products = [], classification = [], last_updated = [], version = [], size_text = []\<rparr>
     ''KB5034122''
     \<lparr>windows_gen = ''windows 10'', display_version = [], build_major = [], catalog_arch = ''x64''\<rparr>
   = - 10000
   \<and> score_candidate
     \<lparr>update_id = ''u'', title = ''Update for Windows 10 for x64-based and ARM64-based Systems (KB5034122)'',
       products = [], classification = [], last_updated = [], version = [], size_text = []\<rparr>
     ''KB5034122''
     \<lparr>windows_gen = ''windows 10'', display_version = [], build_major = [], catalog_arch = ''x64''\<rparr>
   = - 10000"
  by code_simp

text \<open>
  Claim C8. The scorer returns either exactly \<open>-10000\<close> or a value of at least \<open>30\<close>
  (\<open>50 - 15 - 5\<close>), so the selector's filter \<open>s >= 0\<close> on the scored list keeps exactly
  the candidates that were not hard-excluded.
\<close>

theorem score_candidate_excluded_or_at_least_30:
  "(score_candidate x kb_id c = - 10000 \<or> 30 \<le> score_candidate x kb_id c)
   \<and> filter (\<lambda>(s, cand). s \<ge> 0) (map (\<lambda>cand. (score_candidate cand kb_id c, cand)) candidates)
     = filter (\<lambda>(s, cand). s \<noteq> - 10000)
         (map (\<lambda>cand. (score_candidate cand kb_id c, cand)) candidates)"
proof
  show "score_candidate x kb_id c = - 10000 \<or> 30 \<le> score_candidate x kb_id c"
    by (rule score_range)
  show "filter (\<lambda>(s, cand). s \<ge> 0) (map (\<lambda>cand. (score_candidate cand kb_id c, cand)) candidates)
     = filter (\<lambda>(s, cand). s \<noteq> - 10000)
         (map (\<lambda>cand. (score_candidate cand kb_id c, cand)) candidates)"
  proof (rule filter_cong[OF refl])
    fix p
    assume "p \<in> set (map (\<lambda>cand. (score_candidate cand kb_id c, cand)) candidates)"
    then obtain cand where p: "p = (score_candidate cand kb_id c, cand)" by auto
    show "(case p of (s, cand) \<Rightarrow> s \<ge> 0) = (case p of (s, cand) \<Rightarrow> s \<noteq> - 10000)"
      using score_range[of cand kb_id c] by (auto simp: p)
  qed
qed

theorem score_candidate_excluded_or_at_least_30_witness:
  "score_candidate
     \<lparr>update_id = ''u'', title = ''KB5034122 (19045.3930) -22h2'',
       products = [], classification = [], last_updated = [], version = [], size_text = []\<rparr>
     ''KB5034122''
     \<lparr>windows_gen = ''windows 10'', display_version = ''21H2'', build_major = ''19044'',
       catalog_arch = ''x64''\<rparr>
   = 30
   \<and> (score_candidate
     \<lparr>update_id = ''u'', title = ''KB5034122 (19045.3930) -22h2'',
       products = [], classification = [], last_updated = [], version = [], size_text = []\<rparr>
     ''KB5034122''
     \<lparr>windows_gen = ''windows 10'', display_version = ''21H2'', build_major = ''19044'',
       catalog_arch = ''x64''\<rparr>
   = - 10000 \<or> 30 \<le> score_candidate
     \<lparr>update_id = ''u'', title = ''KB5034122 (19045.3930) -22h2'',
       products = [], classification = [], last_updated = [], version = [], size_text = []\<rparr>
     ''KB5034122''
     \<lparr>windows_gen = ''windows 10'', display_version = ''21H2'', build_major = ''19044'',
       catalog_arch = ''x64''\<rparr>)"
  (is "score_candidate ?x ?kb ?c = 30 \<and> ?R")
proof
  show "score_candidate ?x ?kb ?c = 30" by code_simp
  show ?R by (rule score_candidate_excluded_or_at_least_30[THEN conjunct1])
qed

text \<open>
  Claim C9. When the baseline's architecture string, lower-cased, is none of \<open>x64\<close>,
  \<open>amd64\<close>, \<open>x86\<close>, \<open>32-bit\<close> and does not contain \<open>arm64\<close> (the empty string
  included), the derived architecture tag is \<open>x64\<close>, and every candidate whose title bears
  an \<open>arm64-based\<close>, \<open>x86-based\<close> or \<open>32-bit\<close> marker scores \<open>-10000\<close>.
\<close>

theorem unrecognized_arch_defaults_to_x64:
  assumes "lower (str_or_empty (Architecture b)) \<notin> {''x64'', ''amd64'', ''x86'', ''32-bit''}
           \<and> \<not> str_in ''arm64'' (lower (str_or_empty (Architecture b)))"
  shows "catalog_arch (build_constraints b) = ''x64''
         \<and> (\<forall>x kb_id.
              str_in ''arm64-based'' (lower (title x)) \<or> str_in ''x86-based'' (lower (title x))
                \<or> str_in ''32-bit'' (lower (title x))
              \<longrightarrow> score_candidate x kb_id (build_constraints b) = - 10000)"
proof (intro conjI allI impI)
  show a: "catalog_arch (build_constraints b) = ''x64''"
    using assms by (simp add: build_constraints_def Let_def)
  fix x :: catalog_candidate and kb_id :: string
  assume "str_in ''arm64-based'' (lower (title x)) \<or> str_in ''x86-based'' (lower (title x))
            \<or> str_in ''32-bit'' (lower (title x))"
  then have "score_arch (catalog_arch (build_constraints b)) (lower (title x)) = None"
    by (simp add: a score_arch_def)
  then show "score_candidate x kb_id (build_constraints b) = - 10000"
    by (simp add: score_candidate_def Let_def)
qed

theorem unrecognized_arch_defaults_to_x64_witness:
  "catalog_arch (build_constraints
     \<lparr>OsName = Some ''Microsoft Windows 11 Pro'', DisplayVersion = Some ''23H2'',
       Architecture = None, Build = Some ''22631.3007'', IsAdmin = True,
       LcuMonthId = None, MsrcLatestMonthId = None\<rparr>) = ''x64''
   \<and> score_candidate
       \<lparr>update_id = ''u'',
         title = ''2024-01 Cumulative Update for Windows 11 Version 23H2 for arm64-based Systems (KB5034123)'',
         products = [], classification = [], last_updated = [], version = [], size_text = []\<rparr>
       ''KB5034123''
       (build_constraints
         \<lparr>OsName = Some ''Microsoft Windows 11 Pro'', DisplayVersion = Some ''23H2'',
           Architecture = None, Build = Some ''22631.3007'', IsAdmin = True,
           LcuMonthId = None, MsrcLatestMonthId = None\<rparr>) = - 10000"
  (is "catalog_arch (build_constraints ?b) = ''x64'' \<and> score_candidate ?x ?kb (build_constraints ?b) = - 10000")
proof -
  have h: "lower (str_or_empty (Architecture ?b)) \<notin> {''x64'', ''amd64'', ''x86'', ''32-bit''}
           \<and> \<not> str_in ''arm64'' (lower (str_or_empty (Architecture ?b)))"
    by (simp add: str_or_empty_def lower_def)
  have m: "str_in ''arm64-based'' (lower (title ?x)) \<or> str_in ''x86-based'' (lower (title ?x))
                \<or> str_in ''32-bit'' (lower (title ?x))"
    by code_simp
  from unrecognized_arch_defaults_to_x64[OF h] m show ?thesis by blast
qed


section \<open>Properties of the candidate selector\<close>

lemma sort_by_score_desc_sorted:
  "sorted_wrt (\<lambda>a b. fst b \<le> fst a) (sort_by_score_desc xs)"
proof -
  have "sorted (map (\<lambda>x. - fst x) (sort_key (\<lambda>x. - fst x) xs))" by (rule sorted_sort_key)
  then show ?thesis
    by (simp add: sort_by_score_desc_def sorted_map sorted_wrt_iff_nth_less)
qed

lemma sort_by_score_desc_stable:
  "filter (\<lambda>p. fst p = k) (sort_by_score_desc xs) = filter (\<lambda>p. fst p = k) xs"
proof -
  have "filter (\<lambda>p. - fst p = - k) (sort_key (\<lambda>x. - fst x) xs) = filter (\<lambda>p. - fst p = - k) xs"
    by (rule sort_key_stable)
  then show ?thesis by (simp add: sort_by_score_desc_def)
qed

lemma sort_by_score_desc_set: "set (sort_by_score_desc xs) = set xs"
  by (simp add: sort_by_score_desc_def)

lemma hd_sort_by_score_desc:
  assumes "xs \<noteq> []"
  shows "fst (hd (sort_by_score_desc xs)) = Max (fst ` set xs)"
    and "hd (sort_by_score_desc xs) = hd (filter (\<lambda>p. fst p = Max (fst ` set xs)) xs)"
proof -
  let ?ys = "sort_by_score_desc xs"
  from assms have ne: "?ys \<noteq> []"
    using sort_by_score_desc_set[of xs] by (metis set_empty)
  then obtain y ys where ys: "?ys = y # ys" by (cases ?ys) auto
  have yin: "y \<in> set xs" using sort_by_score_desc_set[of xs] ys by (metis list.set_intros(1))
  have "\<forall>z \<in> set ys. fst z \<le> fst y"
    using sort_by_score_desc_sorted[of xs] ys by simp
  then have ub: "\<forall>z \<in> set xs. fst z \<le> fst y"
    using sort_by_score_desc_set[of xs] ys by (metis order_refl set_ConsD)
  have m: "Max (fst ` set xs) = fst y"
  proof (rule Max_eqI)
    show "finite (fst ` set xs)" by simp
    show "\<And>v. v \<in> fst ` set xs \<Longrightarrow> v \<le> fst y" using ub by auto
    show "fst y \<in> fst ` set xs" using yin by simp
  qed
  show "fst (hd ?ys) = Max (fst ` set xs)" using ys m by simp
  have "hd (filter (\<lambda>p. fst p = fst y) ?ys) = y" using ys by simp
  then have "hd (filter (\<lambda>p. fst p = fst y) xs) = y"
    by (simp only: sort_by_score_desc_stable)
  then show "hd ?ys = hd (filter (\<lambda>p. fst p = Max (fst ` set xs)) xs)"
    using ys m by simp
qed

lemma select_scored_char:
  "select_scored scored =
     (let surv = filter (\<lambda>p. 0 \<le> fst p) scored in
      if surv = [] then Inl NoMatch
      else if Max (fst ` set surv) < 90 then Inl (AmbiguousMatch (Max (fst ` set surv)))
      else Inr (snd (hd (filter (\<lambda>p. fst p = Max (fst ` set surv)) surv))))"
proof -
  let ?surv = "filter (\<lambda>p. 0 \<le> fst p) scored"
  have eq: "filter (\<lambda>(s, c). s \<ge> 0) scored = ?surv" by (rule filter_cong) auto
  show ?thesis
  proof (cases "?surv = []")
    case True
    then show ?thesis by (simp add: select_scored_def eq Let_def)
  next
    case False
    have "sort_by_score_desc ?surv \<noteq> []"
      using False sort_by_score_desc_set[of ?surv] by (metis set_empty)
    then obtain b bs where s: "sort_by_score_desc ?surv = b # bs"
      by (cases "sort_by_score_desc ?surv") auto
    have b1: "fst b = Max (fst ` set ?surv)" using hd_sort_by_score_desc(1)[OF False] s by simp
    have b2: "b = hd (filter (\<lambda>p. fst p = Max (fst ` set ?surv)) ?surv)"
      using hd_sort_by_score_desc(2)[OF False] s by simp
    show ?thesis
      unfolding select_scored_def eq Let_def using False s b1 b2
      by (simp add: case_prod_beta split: list.split)
  qed
qed


lemma choose_best_candidate_char:
  "choose_best_candidate candidates kb_id constraints =
     (let sc = (\<lambda>x. score_candidate x kb_id constraints);
          surv = filter (\<lambda>x. 0 \<le> sc x) candidates in
      if surv = [] then Inl NoMatch
      else if Max (sc ` set surv) < 90 then Inl (AmbiguousMatch (Max (sc ` set surv)))
      else Inr (hd (filter (\<lambda>x. sc x = Max (sc ` set surv)) surv)))"
proof -
  let ?sc = "\<lambda>x. score_candidate x kb_id constraints"
  let ?g = "\<lambda>x. (?sc x, x)"
  let ?surv = "filter (\<lambda>x. 0 \<le> ?sc x) candidates"
  let ?m = "Max (?sc ` set ?surv)"
  have f1: "filter (\<lambda>p. 0 \<le> fst p) (map ?g candidates) = map ?g ?surv"
    by (simp add: filter_map o_def)
  have f2: "fst ` set (map ?g ?surv) = ?sc ` set ?surv" by (simp add: image_image)
  have f3: "filter (\<lambda>p. fst p = ?m) (map ?g ?surv) = map ?g (filter (\<lambda>x. ?sc x = ?m) ?surv)"
    by (simp add: filter_map o_def)
  show ?thesis
  proof (cases "?surv = []")
    case True
    then show ?thesis
      unfolding choose_best_candidate_def select_scored_char Let_def f1 by simp
  next
    case False
    then have "set ?surv \<noteq> {}" by (simp only: set_empty not_False_eq_True)
    then have "?sc ` set ?surv \<noteq> {}" by (simp only: image_is_empty not_False_eq_True)
    then have "?m \<in> ?sc ` set ?surv" by (intro Max_in) simp_all
    then have ne: "filter (\<lambda>x. ?sc x = ?m) ?surv \<noteq> []"
      by (auto simp: filter_empty_conv)
    have "snd (hd (map ?g (filter (\<lambda>x. ?sc x = ?m) ?surv))) = hd (filter (\<lambda>x. ?sc x = ?m) ?surv)"
      using ne by (simp add: hd_map)
    then show ?thesis
      unfolding choose_best_candidate_def select_scored_char Let_def f1 f2 f3 using False by simp
  qed
qed


text \<open>
  Claim C4. The selector keeps the candidates with a score of at least 0; with none left
  it fails with \<open>NoMatch\<close>; otherwise the top of the stable descending sort is the first
  survivor, in catalog order, among those with the maximal score: below 90 the selector
  fails with \<open>AmbiguousMatch\<close> carrying that score, otherwise it returns that candidate.
  The sort is descending and keeps the catalog order of equal scores. Scores 115 and 60
  select the 115 candidate in either order; two candidates at 80 give \<open>AmbiguousMatch 80\<close>.
\<close>

theorem choose_best_candidate_selects:
  "choose_best_candidate candidates kb_id constraints =
     (let sc = (\<lambda>x. score_candidate x kb_id constraints);
          surv = filter (\<lambda>x. 0 \<le> sc x) candidates in
      if surv = [] then Inl NoMatch
      else if Max (sc ` set surv) < 90 then Inl (AmbiguousMatch (Max (sc ` set surv)))
      else Inr (hd (filter (\<lambda>x. sc x = Max (sc ` set surv)) surv)))
   \<and> sorted_wrt (\<lambda>a b. fst b \<le> fst a) (sort_by_score_desc scored)
   \<and> filter (\<lambda>p. fst p = k) (sort_by_score_desc scored) = filter (\<lambda>p. fst p = k) scored
   \<and> select_scored [(115, a), (60, b)] = Inr a
   \<and> select_scored [(60, b), (115, a)] = Inr a
   \<and> select_scored [(80, a), (80, b)] = Inl (AmbiguousMatch 80)"
proof -
  have e1: "select_scored [(115, a), (60, b)] = Inr a"
    by (simp add: select_scored_def sort_by_score_desc_def)
  have e2: "select_scored [(60, b), (115, a)] = Inr a"
    by (simp add: select_scored_def sort_by_score_desc_def)
  have e3: "select_scored [(80, a), (80, b)] = Inl (AmbiguousMatch 80)"
    by (simp add: select_scored_def sort_by_score_desc_def)
  show ?thesis
    using choose_best_candidate_char[of candidates kb_id constraints]
      sort_by_score_desc_sorted[of scored] sort_by_score_desc_stable[of k scored] e1 e2 e3
    by simp
qed


theorem choose_best_candidate_selects_witness:
  "choose_best_candidate
     [\<lparr>update_id = ''a'', title = ''Update (KB5034122) (19045.3930)'', products = [],
        classification = [], last_updated = [], version = [], size_text = []\<rparr>,
      \<lparr>update_id = ''b'',
        title = ''2024-01 Cumulative Update for Windows 10 Version 22H2 for x64-based Systems (KB5034122)'',
        products = [], classification = [], last_updated = [], version = [], size_text = []\<rparr>]
     ''KB5034122''
     \<lparr>windows_gen = ''windows 10'', display_version = [], build_major = ''19045'', catalog_arch = ''x64''\<rparr>
   = Inr \<lparr>update_id = ''b'',
        title = ''2024-01 Cumulative Update for Windows 10 Version 22H2 for x64-based Systems (KB5034122)'',
        products = [], classification = [], last_updated = [], version = [], size_text = []\<rparr>"
  (is "choose_best_candidate [?a, ?b] ?kb ?c = Inr ?b")
proof -
  have sa: "score_candidate ?a ?kb ?c = 60" by code_simp
  have sb: "score_candidate ?b ?kb ?c = 115" by code_simp
  have surv: "filter (\<lambda>x. 0 \<le> score_candidate x ?kb ?c) [?a, ?b] = [?a, ?b]"
    by (simp add: sa sb)
  have mx: "Max ((\<lambda>x. score_candidate x ?kb ?c) ` set [?a, ?b]) = 115"
    by (simp add: sa sb)
  have "choose_best_candidate [?a, ?b] ?kb ?c =
     (let sc = (\<lambda>x. score_candidate x ?kb ?c);
          surv = filter (\<lambda>x. 0 \<le> sc x) [?a, ?b] in
      if surv = [] then Inl NoMatch
      else if Max (sc ` set surv) < 90 then Inl (AmbiguousMatch (Max (sc ` set surv)))
      else Inr (hd (filter (\<lambda>x. sc x = Max (sc ` set surv)) surv)))"
    by (rule choose_best_candidate_selects[THEN conjunct1])
  then show ?thesis
    unfolding Let_def surv mx by (simp add: sa sb)
qed




section \<open>Properties of the supersedence resolver\<close>

lemma fold_visit_result:
  "fold (visit root) olds (st, se, lp, sb) = (st', se', lp', sb') \<Longrightarrow>
   se' = se \<union> set olds \<and> lp' = lp \<union> set olds \<and> set st' = set st \<union> (set olds - se)"
proof (induction olds arbitrary: st se lp sb)
  case Nil
  then show ?case by simp
next
  case (Cons old olds)
  show ?case
  proof (cases "old \<in> se")
    case True
    with Cons.prems have
      "fold (visit root) olds (st, se, insert old lp,
          sb(old \<mapsto> insert root (case sb old of None \<Rightarrow> {} | Some s \<Rightarrow> s))) = (st', se', lp', sb')"
      by simp
    from Cons.IH[OF this] True show ?thesis by auto
  next
    case False
    with Cons.prems have
      "fold (visit root) olds (st @ [old], insert old se, insert old lp,
          sb(old \<mapsto> insert root (case sb old of None \<Rightarrow> {} | Some s \<Rightarrow> s))) = (st', se', lp', sb')"
      by simp
    from Cons.IH[OF this] False show ?thesis by auto
  qed
qed

lemma walk_mono: "(case st of (stack, seen, lp, sb) \<Rightarrow> lp) \<subseteq> fst (walk sm root st)"
proof (induction sm root st rule: walk.induct)
  case (1 sm root stack seen lp sb)
  show ?case
  proof (cases "stack = []")
    case True
    then show ?thesis by simp
  next
    case False
    obtain st' se' lp' sb' where
      f: "fold (visit root) (supersedes_get sm (last stack)) (butlast stack, seen, lp, sb)
            = (st', se', lp', sb')" by (metis prod_cases4)
    from fold_visit_result[OF f] have "lp \<subseteq> lp'" by auto
    moreover from "1.IH"[OF False] f have "lp' \<subseteq> fst (walk sm root (st', se', lp', sb'))" by simp
    moreover have "walk sm root (stack, seen, lp, sb) = walk sm root (st', se', lp', sb')"
      using False f by simp
    ultimately show ?thesis by simp
  qed
qed

lemma walk_closed:
  "walk_inv (supersedes_rel sm) root st \<Longrightarrow>
   (supersedes_rel sm)\<^sup>* `` {root} \<subseteq> insert root (fst (walk sm root st))"
proof (induction sm root st rule: walk.induct)
  case (1 sm root stack seen lp sb)
  let ?E = "supersedes_rel sm"
  note inv = "1.prems"
  show ?case
  proof (cases "stack = []")
    case True
    have closed: "\<And>x y. x \<in> seen \<Longrightarrow> (x, y) \<in> ?E \<Longrightarrow> y \<in> seen"
      using inv True by auto
    have "\<And>y. (root, y) \<in> ?E\<^sup>* \<Longrightarrow> y \<in> seen"
    proof -
      fix y assume "(root, y) \<in> ?E\<^sup>*"
      then show "y \<in> seen"
      proof (induction rule: rtrancl_induct)
        case base
        then show ?case using inv by simp
      next
        case (step y z)
        then show ?case using closed by blast
      qed
    qed
    then have "?E\<^sup>* `` {root} \<subseteq> seen" by auto
    also have "seen \<subseteq> insert root lp" using inv by simp
    finally show ?thesis using True by simp
  next
    case False
    obtain st' se' lp' sb' where
      f: "fold (visit root) (supersedes_get sm (last stack)) (butlast stack, seen, lp, sb)
            = (st', se', lp', sb')" by (metis prod_cases4)
    let ?olds = "set (supersedes_get sm (last stack))"
    from fold_visit_result[OF f] have
      se': "se' = seen \<union> ?olds" and lp': "lp' = lp \<union> ?olds"
      and st': "set st' = set (butlast stack) \<union> (?olds - seen)" by auto
    have stk: "set stack = insert (last stack) (set (butlast stack))"
      using False by (metis append_butlast_last_id list.simps(15) rotate1.simps(2) set_rotate1)
    have "walk_inv ?E root (st', se', lp', sb')"
      unfolding walk_inv.simps
    proof (intro conjI ballI allI impI)
      show "root \<in> se'" using inv se' by simp
      show "set st' \<subseteq> se'" using inv st' se' stk by auto
      show "se' \<subseteq> insert root lp'" using inv se' lp' by auto
    next
      fix x y assume x: "x \<in> se' - set st'" and xy: "(x, y) \<in> ?E"
      from x st' se' have xs: "x \<in> seen" and xb: "x \<notin> set (butlast stack)" by auto
      show "y \<in> se'"
      proof (cases "x = last stack")
        case True
        then show ?thesis using xy se' by (simp add: supersedes_rel_def)
      next
        case False
        then have "x \<in> seen - set stack" using xs xb stk by simp
        then have "y \<in> seen" using inv xy by auto
        then show ?thesis using se' by simp
      qed
    qed
    from "1.IH"[OF False] f this
    have "?E\<^sup>* `` {root} \<subseteq> insert root (fst (walk sm root (st', se', lp', sb')))" by simp
    moreover have "walk sm root (stack, seen, lp, sb) = walk sm root (st', se', lp', sb')"
      using False f by simp
    ultimately show ?thesis by simp
  qed
qed


lemma supersedes_get_add_edge:
  "supersedes_get (add_edge k old sm) k' =
     (if k' = k then List.insert old (supersedes_get sm k) else supersedes_get sm k')"
  by (simp add: supersedes_get_def add_edge_def update_conv')

lemma supersedes_get_fold_add_edge:
  "set (supersedes_get (fold (add_edge k) olds sm) k') =
     set (supersedes_get sm k') \<union> (if k' = k then set olds else {})"
  by (induction olds arbitrary: sm) (auto simp: supersedes_get_add_edge)

lemma supersedes_get_fold_entries:
  "set (supersedes_get (fold (\<lambda>entry sm. fold (add_edge (KB entry)) (Supersedes entry) sm) es sm) k) =
     set (supersedes_get sm k) \<union> (\<Union>e \<in> {e \<in> set es. KB e = k}. set (Supersedes e))"
proof (induction es arbitrary: sm)
  case Nil
  then show ?case by simp
next
  case (Cons e es)
  show ?case
    by (simp only: fold.simps o_apply Cons.IH supersedes_get_fold_add_edge) auto
qed

lemma supersedes_get_build:
  "set (supersedes_get (build_supersedes_map es) k) =
     (\<Union>e \<in> {e \<in> set es. KB e = k}. set (Supersedes e))"
proof -
  have "set (supersedes_get [] k) = {}" by (simp add: supersedes_get_def)
  then show ?thesis unfolding build_supersedes_map_def supersedes_get_fold_entries by simp
qed

lemma supersedes_rel_build:
  "e \<in> set es \<Longrightarrow> old \<in> set (Supersedes e) \<Longrightarrow> (KB e, old) \<in> supersedes_rel (build_supersedes_map es)"
  by (auto simp: supersedes_rel_def supersedes_get_build)

lemma walk_all_mono: "fst acc \<subseteq> fst (walk_all sm roots acc)"
proof (induction roots arbitrary: acc)
  case Nil
  then show ?case by (simp add: walk_all_def)
next
  case (Cons r roots)
  obtain lp sb where acc: "acc = (lp, sb)" by (cases acc)
  have "lp \<subseteq> fst (walk sm r ([r], {r}, lp, sb))"
    using walk_mono[of "([r], {r}, lp, sb)" sm r] by simp
  also have "\<dots> \<subseteq> fst (walk_all sm roots (walk sm r ([r], {r}, lp, sb)))" by (rule Cons.IH)
  finally show ?case by (simp add: walk_all_def acc)
qed

lemma walk_all_closed:
  "r \<in> set roots \<Longrightarrow> (supersedes_rel sm)\<^sup>* `` {r} \<subseteq> insert r (fst (walk_all sm roots acc))"
proof (induction roots arbitrary: acc)
  case Nil
  then show ?case by simp
next
  case (Cons r' roots)
  obtain lp sb where acc: "acc = (lp, sb)" by (cases acc)
  let ?w = "walk sm r' ([r'], {r'}, lp, sb)"
  have step: "walk_all sm (r' # roots) acc = walk_all sm roots ?w" by (simp add: walk_all_def acc)
  show ?case
  proof (cases "r = r'")
    case True
    have "walk_inv (supersedes_rel sm) r' ([r'], {r'}, lp, sb)" by simp
    from walk_closed[OF this] have "(supersedes_rel sm)\<^sup>* `` {r'} \<subseteq> insert r' (fst ?w)" .
    moreover have "fst ?w \<subseteq> fst (walk_all sm roots ?w)" by (rule walk_all_mono)
    ultimately show ?thesis unfolding step True by blast
  next
    case False
    then have "r \<in> set roots" using Cons.prems by simp
    from Cons.IH[OF this] show ?thesis unfolding step .
  qed
qed

lemma compute_supersedence_fst:
  "fst (compute_supersedence es installed) =
     fst (walk_all (build_supersedes_map es) installed (set installed, Map.empty))"
  by (simp add: compute_supersedence_def Let_def case_prod_beta)

lemma logical_present_superset: "set installed \<subseteq> fst (compute_supersedence es installed)"
  unfolding compute_supersedence_fst
  using walk_all_mono[of "(set installed, Map.empty)" "build_supersedes_map es" installed] by simp

lemma logical_present_reachable:
  assumes "r \<in> set installed" and "(r, y) \<in> (supersedes_rel (build_supersedes_map es))\<^sup>*"
  shows "y \<in> fst (compute_supersedence es installed)"
proof -
  have "y \<in> insert r (fst (compute_supersedence es installed))"
    unfolding compute_supersedence_fst using walk_all_closed[OF assms(1)] assms(2) by blast
  then show ?thesis using logical_present_superset[of installed es] assms(1) by auto
qed

lemma supersedes_rel_build_eq:
  "supersedes_rel (build_supersedes_map es) = supersedes_edges es"
  by (auto simp: supersedes_rel_def supersedes_edges_def supersedes_get_build)

lemma walk_sound:
  "fst (walk sm root st) \<subseteq>
     (case st of (stack, seen, lp, sb) \<Rightarrow> lp \<union> (supersedes_rel sm)\<^sup>+ `` set stack)"
proof (induction sm root st rule: walk.induct)
  case (1 sm root stack seen lp sb)
  let ?E = "supersedes_rel sm"
  show ?case
  proof (cases "stack = []")
    case True
    then show ?thesis by simp
  next
    case False
    obtain st' se' lp' sb' where
      f: "fold (visit root) (supersedes_get sm (last stack)) (butlast stack, seen, lp, sb)
            = (st', se', lp', sb')" by (metis prod_cases4)
    let ?olds = "set (supersedes_get sm (last stack))"
    from fold_visit_result[OF f] have
      lp': "lp' = lp \<union> ?olds"
      and st': "set st' = set (butlast stack) \<union> (?olds - seen)" by auto
    have stk: "set stack = insert (last stack) (set (butlast stack))"
      using False by (metis append_butlast_last_id list.simps(15) rotate1.simps(2) set_rotate1)
    have olds: "?olds \<subseteq> ?E `` {last stack}" by (auto simp: supersedes_rel_def)
    have o1: "?olds \<subseteq> ?E\<^sup>+ `` set stack" using olds stk by auto
    have o2: "?E\<^sup>+ `` ?olds \<subseteq> ?E\<^sup>+ `` set stack"
    proof
      fix y assume "y \<in> ?E\<^sup>+ `` ?olds"
      then obtain x where "x \<in> ?olds" "(x, y) \<in> ?E\<^sup>+" by auto
      then have "(last stack, x) \<in> ?E" and "(x, y) \<in> ?E\<^sup>+" using olds by auto
      then have "(last stack, y) \<in> ?E\<^sup>+" by (rule trancl_into_trancl2)
      then show "y \<in> ?E\<^sup>+ `` set stack" using stk by auto
    qed
    have "?E\<^sup>+ `` set st' \<subseteq> ?E\<^sup>+ `` set (butlast stack) \<union> ?E\<^sup>+ `` ?olds"
      using st' by auto
    also have "\<dots> \<subseteq> ?E\<^sup>+ `` set stack" using o2 stk by auto
    finally have s: "?E\<^sup>+ `` set st' \<subseteq> ?E\<^sup>+ `` set stack" .
    from "1.IH"[OF False] f
    have ih: "fst (walk sm root (st', se', lp', sb')) \<subseteq> lp' \<union> ?E\<^sup>+ `` set st'"
      by simp
    have weq: "walk sm root (stack, seen, lp, sb) = walk sm root (st', se', lp', sb')"
      using False f by simp
    have "fst (walk sm root (stack, seen, lp, sb)) \<subseteq> lp' \<union> ?E\<^sup>+ `` set st'"
      unfolding weq by (rule ih)
    also have "\<dots> \<subseteq> lp \<union> ?E\<^sup>+ `` set stack" using lp' o1 s by blast
    finally show ?thesis by (simp only: prod.case)
  qed
qed

lemma walk_all_sound:
  "fst (walk_all sm roots acc) \<subseteq> fst acc \<union> (supersedes_rel sm)\<^sup>+ `` set roots"
proof (induction roots arbitrary: acc)
  case Nil
  then show ?case by (simp add: walk_all_def)
next
  case (Cons r roots)
  obtain lp sb where acc: "acc = (lp, sb)" by (cases acc)
  let ?w = "walk sm r ([r], {r}, lp, sb)"
  have step: "walk_all sm (r # roots) acc = walk_all sm roots ?w" by (simp add: walk_all_def acc)
  have "fst ?w \<subseteq> (case ([r], {r}, lp, sb) of (stack, seen, lp, sb) \<Rightarrow>
            lp \<union> (supersedes_rel sm)\<^sup>+ `` set stack)"
    by (rule walk_sound)
  then have a: "fst ?w \<subseteq> lp \<union> (supersedes_rel sm)\<^sup>+ `` {r}" by simp
  have b: "fst (walk_all sm roots ?w) \<subseteq> fst ?w \<union> (supersedes_rel sm)\<^sup>+ `` set roots"
    by (rule Cons.IH)
  have "fst (walk_all sm roots ?w)
          \<subseteq> lp \<union> (supersedes_rel sm)\<^sup>+ `` {r} \<union> (supersedes_rel sm)\<^sup>+ `` set roots"
    using a b by blast
  also have "\<dots> = fst acc \<union> (supersedes_rel sm)\<^sup>+ `` set (r # roots)"
    by (auto simp: acc)
  finally show ?case unfolding step .
qed

text \<open>
  The resolver computes exactly the reflexive transitive closure: the logical presence set
  is the set of identifiers reachable from an installed identifier along the supersedes
  edges of the records, no more and no less.
\<close>

lemma logical_present_exact:
  "fst (compute_supersedence es installed) = (supersedes_edges es)\<^sup>* `` set installed"
proof
  show "fst (compute_supersedence es installed) \<subseteq> (supersedes_edges es)\<^sup>* `` set installed"
  proof
    fix y assume "y \<in> fst (compute_supersedence es installed)"
    then have "y \<in> set installed \<union> (supersedes_edges es)\<^sup>+ `` set installed"
      using walk_all_sound[of "build_supersedes_map es" installed "(set installed, Map.empty)"]
      unfolding compute_supersedence_fst supersedes_rel_build_eq by auto
    then show "y \<in> (supersedes_edges es)\<^sup>* `` set installed"
      by auto
  qed
  show "(supersedes_edges es)\<^sup>* `` set installed \<subseteq> fst (compute_supersedence es installed)"
    using logical_present_reachable[of _ installed _ es]
    unfolding supersedes_rel_build_eq by auto
qed

lemma set_missing_kbs: "set (missing_kbs es lp) = KB ` set es - lp"
  by (auto simp: missing_kbs_def)

text \<open>
  Claim C1. For every list of canonical records and every installed set, the logical
  presence set returned by \<open>compute_supersedence\<close> contains the installed set; the
  missing list of \<open>main\<close> is the set of known record identifiers minus the logical
  presence set, and it is disjoint from the installed set and from the logical presence set.
\<close>

theorem logical_present_superset_missing_disjoint:
  "set installed_kbs \<subseteq> fst (compute_supersedence kb_entries installed_kbs)
   \<and> set (missing_kbs kb_entries (fst (compute_supersedence kb_entries installed_kbs)))
       = KB ` set kb_entries - fst (compute_supersedence kb_entries installed_kbs)
   \<and> set (missing_kbs kb_entries (fst (compute_supersedence kb_entries installed_kbs)))
       \<inter> set installed_kbs = {}
   \<and> set (missing_kbs kb_entries (fst (compute_supersedence kb_entries installed_kbs)))
       \<inter> fst (compute_supersedence kb_entries installed_kbs) = {}"
  using logical_present_superset[of installed_kbs kb_entries]
  by (auto simp: set_missing_kbs)

theorem logical_present_superset_missing_disjoint_witness:
  "set [''KB3'', ''KB9''] \<subseteq> fst (compute_supersedence
      [\<lparr>KB = ''KB1'', Months = [], Cves = [], Supersedes = [], UpdateType = None\<rparr>,
       \<lparr>KB = ''KB2'', Months = [], Cves = [], Supersedes = [''KB1''], UpdateType = None\<rparr>,
       \<lparr>KB = ''KB3'', Months = [], Cves = [], Supersedes = [''KB2''], UpdateType = None\<rparr>,
       \<lparr>KB = ''KB4'', Months = [], Cves = [], Supersedes = [''KB3''], UpdateType = None\<rparr>]
      [''KB3'', ''KB9''])
   \<and> missing_kbs
      [\<lparr>KB = ''KB1'', Months = [], Cves = [], Supersedes = [], UpdateType = None\<rparr>,
       \<lparr>KB = ''KB2'', Months = [], Cves = [], Supersedes = [''KB1''], UpdateType = None\<rparr>,
       \<lparr>KB = ''KB3'', Months = [], Cves = [], Supersedes = [''KB2''], UpdateType = None\<rparr>,
       \<lparr>KB = ''KB4'', Months = [], Cves = [], Supersedes = [''KB3''], UpdateType = None\<rparr>]
      (fst (compute_supersedence
      [\<lparr>KB = ''KB1'', Months = [], Cves = [], Supersedes = [], UpdateType = None\<rparr>,
       \<lparr>KB = ''KB2'', Months = [], Cves = [], Supersedes = [''KB1''], UpdateType = None\<rparr>,
       \<lparr>KB = ''KB3'', Months = [], Cves = [], Supersedes = [''KB2''], UpdateType = None\<rparr>,
       \<lparr>KB = ''KB4'', Months = [], Cves = [], Supersedes = [''KB3''], UpdateType = None\<rparr>]
      [''KB3'', ''KB9''])) = [''KB4'']"
  (is "set ?inst \<subseteq> fst (compute_supersedence ?es ?inst) \<and> ?M")
proof
  show "set ?inst \<subseteq> fst (compute_supersedence ?es ?inst)"
    by (rule logical_present_superset_missing_disjoint[THEN conjunct1])
  show ?M by code_simp
qed

text \<open>
  Claim C2. \<open>walk\<close> is a total function: its termination proof uses the measure
  "length of the stack plus number of nodes not yet seen", which decreases at each pop
  because a node is pushed only when it enters \<open>seen\<close>, so no node is pushed twice in one
  root's walk. On a cycle, \<open>a\<close> supersedes \<open>b\<close> and \<open>b\<close> supersedes \<open>a\<close> with \<open>a\<close>
  installed, the result contains both \<open>a\<close> and \<open>b\<close>.
\<close>

theorem supersedence_cycle_safe:
  assumes "a \<in> set installed_kbs"
    and "e1 \<in> set kb_entries \<and> KB e1 = a \<and> b \<in> set (Supersedes e1)"
    and "e2 \<in> set kb_entries \<and> KB e2 = b \<and> a \<in> set (Supersedes e2)"
  shows "a \<in> fst (compute_supersedence kb_entries installed_kbs)
         \<and> b \<in> fst (compute_supersedence kb_entries installed_kbs)"
proof
  show "a \<in> fst (compute_supersedence kb_entries installed_kbs)"
    using logical_present_superset[of installed_kbs kb_entries] assms(1) by auto
  have "(a, b) \<in> supersedes_rel (build_supersedes_map kb_entries)"
    using supersedes_rel_build[of e1 kb_entries b] assms(2) by auto
  then have "(a, b) \<in> (supersedes_rel (build_supersedes_map kb_entries))\<^sup>*" by (rule r_into_rtrancl)
  with assms(1) show "b \<in> fst (compute_supersedence kb_entries installed_kbs)"
    by (rule logical_present_reachable)
qed


theorem supersedence_cycle_safe_witness:
  "''KB1'' \<in> fst (compute_supersedence
      [\<lparr>KB = ''KB1'', Months = [], Cves = [], Supersedes = [''KB2''], UpdateType = None\<rparr>,
       \<lparr>KB = ''KB2'', Months = [], Cves = [], Supersedes = [''KB1''], UpdateType = None\<rparr>]
      [''KB1''])
   \<and> ''KB2'' \<in> fst (compute_supersedence
      [\<lparr>KB = ''KB1'', Months = [], Cves = [], Supersedes = [''KB2''], UpdateType = None\<rparr>,
       \<lparr>KB = ''KB2'', Months = [], Cves = [], Supersedes = [''KB1''], UpdateType = None\<rparr>]
      [''KB1''])
   \<and> fst (compute_supersedence
      [\<lparr>KB = ''KB1'', Months = [], Cves = [], Supersedes = [''KB2''], UpdateType = None\<rparr>,
       \<lparr>KB = ''KB2'', Months = [], Cves = [], Supersedes = [''KB1''], UpdateType = None\<rparr>]
      [''KB1'']) = {''KB1'', ''KB2''}"
  (is "''KB1'' \<in> fst (compute_supersedence [?e1, ?e2] ?inst) \<and> _ \<and> _")
proof -
  have h1: "''KB1'' \<in> set ?inst" by simp
  have h2: "?e1 \<in> set [?e1, ?e2] \<and> KB ?e1 = ''KB1'' \<and> ''KB2'' \<in> set (Supersedes ?e1)" by simp
  have h3: "?e2 \<in> set [?e1, ?e2] \<and> KB ?e2 = ''KB2'' \<and> ''KB1'' \<in> set (Supersedes ?e2)" by simp
  have ev: "fst (compute_supersedence [?e1, ?e2] ?inst) = {''KB1'', ''KB2''}" by code_simp
  show ?thesis using supersedence_cycle_safe[OF h1 h2 h3] ev by (intro conjI) simp_all
qed



section \<open>Properties of the time window\<close>

lemma month_of_index_index:
  "1 \<le> m \<Longrightarrow> m \<le> 12 \<Longrightarrow> month_of_index (month_index (y, m)) = (y, m)"
proof -
  assume "1 \<le> m" and "m \<le> 12"
  then obtain k where k: "m = Suc k" "k < 12" by (cases m) auto
  show ?thesis by (simp add: month_of_index_def month_index_def k)
qed

lemma dt_less_index:
  "1 \<le> snd a \<Longrightarrow> snd a \<le> 12 \<Longrightarrow> 1 \<le> snd b \<Longrightarrow> snd b \<le> 12 \<Longrightarrow>
   dt_less a b = (month_index a < month_index b)"
  by (cases a, cases b) (auto simp: dt_less_def month_index_def)

lemma month_index_eq:
  "1 \<le> snd a \<Longrightarrow> snd a \<le> 12 \<Longrightarrow> 1 \<le> snd b \<Longrightarrow> snd b \<le> 12 \<Longrightarrow>
   (month_index a = month_index b) = (a = b)"
proof
  assume h: "1 \<le> snd a" "snd a \<le> 12" "1 \<le> snd b" "snd b \<le> 12"
  assume eq: "month_index a = month_index b"
  have "(fst a, snd a) = month_of_index (month_index (fst a, snd a))"
    using h by (simp only: month_of_index_index)
  also have "\<dots> = month_of_index (month_index (fst b, snd b))" using eq by simp
  also have "\<dots> = (fst b, snd b)" using h by (simp only: month_of_index_index)
  finally show "a = b" by (simp add: prod_eq_iff)
qed simp

lemma month_loop_eq:
  "datetime_valid (fst end_d) (snd end_d) \<Longrightarrow> 1 \<le> year \<Longrightarrow> 1 \<le> month \<Longrightarrow> month \<le> 12 \<Longrightarrow>
   month_index (year, month) \<le> month_index end_d \<Longrightarrow>
   month_loop end_d max_months year month month_ids =
     Inr (month_ids @ map (\<lambda>i. strftime_Yb (month_of_index i))
            [month_index (year, month) ..<
               month_index (year, month)
                 + min (nat (max_months - int (length month_ids)))
                       (month_index end_d + 1 - month_index (year, month))])"
proof (induction end_d max_months year month month_ids rule: month_loop.induct)
  case (1 end_d max_months year month month_ids)
  let ?i = "month_index (year, month)"
  let ?e = "month_index end_d"
  have ve: "1 \<le> snd end_d" "snd end_d \<le> 12" "fst end_d \<le> 9999"
    using "1.prems"(1) by (auto simp: datetime_valid_def)
  have yle: "year \<le> fst end_d"
    using "1.prems"(5) "1.prems"(3,4) ve by (auto simp: month_index_def)
  have valid: "datetime_valid year month"
    using "1.prems" yle ve by (auto simp: datetime_valid_def)
  have nl: "\<not> dt_less end_d (year, month)"
    using dt_less_index[of end_d "(year, month)"] ve "1.prems" by simp
  show ?case
  proof (cases "int (length month_ids) \<ge> max_months")
    case True
    then show ?thesis using valid nl by (subst month_loop.simps) simp
  next
    case False
    then have k: "nat (max_months - int (length month_ids)) = Suc (nat (max_months - int (length month_ids) - 1))"
      by simp
    let ?s = "strftime_Yb (year, month)"
    have mo: "month_of_index ?i = (year, month)"
      using month_of_index_index[of month year] "1.prems" by simp
    show ?thesis
    proof (cases "(year, month) = end_d")
      case True
      then have "month_loop end_d max_months year month month_ids = Inr (month_ids @ [?s])"
        using valid nl False by (subst month_loop.simps) simp
      moreover have "min (nat (max_months - int (length month_ids))) (?e + 1 - ?i) = 1"
        using True False by simp
      ultimately show ?thesis using mo by simp
    next
      case ne: False
      then have lt: "?i < ?e"
        using month_index_eq[of "(year, month)" end_d] ve "1.prems" by simp
      have upt: "[?i ..< ?i + min (nat (max_months - int (length month_ids))) (?e + 1 - ?i)]
           = ?i # [Suc ?i ..< Suc ?i + min (nat (max_months - int (length month_ids) - 1)) (?e + 1 - Suc ?i)]"
      proof -
        have e: "?e + 1 - ?i = Suc (?e + 1 - Suc ?i)" using lt by arith
        have mineq: "min (nat (max_months - int (length month_ids))) (?e + 1 - ?i)
            = Suc (min (nat (max_months - int (length month_ids) - 1)) (?e + 1 - Suc ?i))"
          using k e by (simp only: min_Suc_Suc)
        have g: "\<And>n. [?i ..< ?i + Suc n] = ?i # [Suc ?i ..< Suc ?i + n]"
          by (simp add: upt_conv_Cons)
        show ?thesis unfolding mineq by (rule g)
      qed
      show ?thesis
      proof (cases "month + 1 = 13")
        case True
        have i': "month_index (year + 1, 1) = Suc ?i" using True by (simp add: month_index_def)
        have "month_loop end_d max_months year month month_ids
                = month_loop end_d max_months (year + 1) 1 (month_ids @ [?s])"
          using valid nl False ne True by (subst month_loop.simps) simp
        also have "\<dots> = Inr ((month_ids @ [?s]) @ map (\<lambda>i. strftime_Yb (month_of_index i))
            [month_index (year + 1, 1) ..< month_index (year + 1, 1)
                 + min (nat (max_months - int (length (month_ids @ [?s]))))
                       (?e + 1 - month_index (year + 1, 1))])"
          using valid nl False ne True lt i' "1.prems"(1)
          by (intro "1.IH"(1)) simp_all
        finally show ?thesis unfolding i' upt using mo by (simp add: algebra_simps)
      next
        case m: False
        have i': "month_index (year, month + 1) = Suc ?i"
          using "1.prems" by (simp add: month_index_def)
        have "month_loop end_d max_months year month month_ids
                = month_loop end_d max_months year (month + 1) (month_ids @ [?s])"
          using valid nl False ne m by (subst month_loop.simps) simp
        also have "\<dots> = Inr ((month_ids @ [?s]) @ map (\<lambda>i. strftime_Yb (month_of_index i))
            [month_index (year, month + 1) ..< month_index (year, month + 1)
                 + min (nat (max_months - int (length (month_ids @ [?s]))))
                       (?e + 1 - month_index (year, month + 1))])"
          using valid nl False ne m lt i' "1.prems"
          by (intro "1.IH"(2)) simp_all
        finally show ?thesis unfolding i' upt using mo by (simp add: algebra_simps)
      qed
    qed
  qed
qed


lemma strptime_Yb_valid: "strptime_Yb s = Some d \<Longrightarrow> datetime_valid (fst d) (snd d)"
  by (auto simp: strptime_Yb_def Let_def split: list.splits if_splits option.splits)

lemma strptime_Yb_nonempty: "strptime_Yb s = Some d \<Longrightarrow> s \<noteq> []"
  by (auto simp: strptime_Yb_def)

text \<open>
  Claim C5, as amended. For every baseline collected with administrative privileges whose
  start anchor and end anchor parse as periods, the builder returns the consecutive months
  from the start (or from the end, when the start is later) up to the end, cut to at most
  \<open>max_months\<close> entries: the months with indices \<open>i, i + 1, ...\<close>, strictly increasing.
  When the start is after the end and \<open>max_months\<close> is at least 1, the result is exactly
  the end period.
\<close>

theorem month_window:
  assumes "IsAdmin b"
    and "LcuMonthId b = Some start_id" and "strptime_Yb start_id = Some start"
    and "MsrcLatestMonthId b = Some end_id" and "strptime_Yb end_id = Some end_d"
  shows "build_month_ids_from_lcu now b max_months =
           Inr (map (\<lambda>i. strftime_Yb (month_of_index i))
                  [month_index (if dt_less end_d start then end_d else start) ..<
                   month_index (if dt_less end_d start then end_d else start)
                     + min (nat max_months)
                         (month_index end_d + 1
                            - month_index (if dt_less end_d start then end_d else start))])
         \<and> (dt_less end_d start \<and> 1 \<le> max_months \<longrightarrow>
              build_month_ids_from_lcu now b max_months = Inr [strftime_Yb end_d])"
proof -
  let ?s = "if dt_less end_d start then end_d else start"
  have ve: "datetime_valid (fst end_d) (snd end_d)" using assms(5) by (rule strptime_Yb_valid)
  have vs: "datetime_valid (fst start) (snd start)" using assms(3) by (rule strptime_Yb_valid)
  have vs': "1 \<le> fst ?s" "1 \<le> snd ?s" "snd ?s \<le> 12"
    using ve vs by (auto simp: datetime_valid_def)
  have le: "month_index (fst ?s, snd ?s) \<le> month_index end_d"
    using dt_less_index[of end_d start] ve vs by (auto simp: datetime_valid_def)
  have "build_month_ids_from_lcu now b max_months = month_loop end_d max_months (fst ?s) (snd ?s) []"
    using assms strptime_Yb_nonempty[OF assms(3)] strptime_Yb_nonempty[OF assms(5)]
    by (simp add: build_month_ids_from_lcu_def str_or_empty_def Let_def)
  also have "\<dots> = Inr ([] @ map (\<lambda>i. strftime_Yb (month_of_index i))
            [month_index (fst ?s, snd ?s) ..<
               month_index (fst ?s, snd ?s)
                 + min (nat (max_months - int (length ([] :: string list))))
                       (month_index end_d + 1 - month_index (fst ?s, snd ?s))])"
    using ve vs' le by (rule month_loop_eq)
  finally have main: "build_month_ids_from_lcu now b max_months =
           Inr (map (\<lambda>i. strftime_Yb (month_of_index i))
                  [month_index ?s ..< month_index ?s + min (nat max_months) (month_index end_d + 1 - month_index ?s)])"
    by simp
  have "build_month_ids_from_lcu now b max_months = Inr [strftime_Yb end_d]"
    if "dt_less end_d start" "1 \<le> max_months"
  proof -
    have "min (nat max_months) (month_index end_d + 1 - month_index end_d) = 1"
      using that by simp
    moreover have "month_of_index (month_index end_d) = end_d"
      using month_of_index_index[of "snd end_d" "fst end_d"] ve by (simp add: datetime_valid_def)
    ultimately show ?thesis using main that by simp
  qed
  with main show ?thesis by blast
qed

theorem month_window_witness:
  "build_month_ids_from_lcu (2024, 6)
     \<lparr>OsName = None, DisplayVersion = None, Architecture = None, Build = None, IsAdmin = True,
       LcuMonthId = Some ''2023-Jan'', MsrcLatestMonthId = Some ''2023-Apr''\<rparr> 48
   = Inr [''2023-Jan'', ''2023-Feb'', ''2023-Mar'', ''2023-Apr'']
   \<and> build_month_ids_from_lcu (2024, 6)
     \<lparr>OsName = None, DisplayVersion = None, Architecture = None, Build = None, IsAdmin = True,
       LcuMonthId = Some ''2023-Jun'', MsrcLatestMonthId = Some ''2023-Apr''\<rparr> 48
   = Inr [''2023-Apr'']"
  (is "build_month_ids_from_lcu ?now ?b1 48 = Inr ?r1 \<and> build_month_ids_from_lcu ?now ?b2 48 = Inr ?r2")
proof
  have jan: "strptime_Yb ''2023-Jan'' = Some (2023, 1)" by code_simp
  have apr: "strptime_Yb ''2023-Apr'' = Some (2023, 4)" by code_simp
  have jun: "strptime_Yb ''2023-Jun'' = Some (2023, 6)" by code_simp
  have a1: "IsAdmin ?b1" and s1: "LcuMonthId ?b1 = Some ''2023-Jan''"
    and e1: "MsrcLatestMonthId ?b1 = Some ''2023-Apr''" by simp_all
  have a2: "IsAdmin ?b2" and s2: "LcuMonthId ?b2 = Some ''2023-Jun''"
    and e2: "MsrcLatestMonthId ?b2 = Some ''2023-Apr''" by simp_all
  have ev: "build_month_ids_from_lcu ?now ?b1 48 = Inr ?r1" by code_simp
  have "build_month_ids_from_lcu ?now ?b1 48 =
           Inr (map (\<lambda>i. strftime_Yb (month_of_index i))
                  [month_index (if dt_less (2023, 4) (2023, 1) then (2023, 4) else (2023, 1)) ..<
                   month_index (if dt_less (2023, 4) (2023, 1) then (2023, 4) else (2023, 1))
                     + min (nat 48)
                         (month_index (2023, 4) + 1
                            - month_index (if dt_less (2023, 4) (2023, 1) then (2023, 4) else (2023, 1)))])"
    by (rule month_window[OF a1 s1 jan e1 apr, THEN conjunct1])
  then show "build_month_ids_from_lcu ?now ?b1 48 = Inr ?r1" using ev by (simp only:)
  have "dt_less (2023, 4) (2023, 6) \<and> (1 :: int) \<le> 48" by (simp add: dt_less_def)
  then have "build_month_ids_from_lcu ?now ?b2 48 = Inr [strftime_Yb (2023, 4)]"
    by (rule month_window[OF a2 s2 jun e2 apr, THEN conjunct2, THEN mp])
  also have "\<dots> = Inr ?r2" by code_simp
  finally show "build_month_ids_from_lcu ?now ?b2 48 = Inr ?r2" .
qed

text \<open>
  Claim C5 as the specification states it fails on two baselines that have both anchors:
  one collected without administrative privileges, where the builder raises instead of
  returning a sequence, and one whose start is after its end with a window length of 0,
  where the result is empty and not the end period.
\<close>

theorem month_window_counterexample:
  "build_month_ids_from_lcu (2024, 6)
     \<lparr>OsName = None, DisplayVersion = None, Architecture = None, Build = None, IsAdmin = False,
       LcuMonthId = Some ''2023-Jan'', MsrcLatestMonthId = Some ''2023-Apr''\<rparr> 48
   = Inl (RuntimeError ''Baseline collected without administrative privileges'')
   \<and> build_month_ids_from_lcu (2024, 6)
     \<lparr>OsName = None, DisplayVersion = None, Architecture = None, Build = None, IsAdmin = True,
       LcuMonthId = Some ''2023-Jun'', MsrcLatestMonthId = Some ''2023-Apr''\<rparr> 0
   = Inr []"
  by code_simp




section \<open>Properties of the record merger\<close>

lemma set_merge_values: "set (merge_values t vs) = set t \<union> {v \<in> set vs. v \<noteq> []}"
  unfolding merge_values_def by (induction vs arbitrary: t) auto

lemma distinct_merge_values: "distinct t \<Longrightarrow> distinct (merge_values t vs)"
  unfolding merge_values_def by (induction vs arbitrary: t) auto

lemma merge_values_filter: "merge_values t (filter (\<lambda>v. v \<noteq> []) vs) = merge_values t vs"
  unfolding merge_values_def by (induction vs arbitrary: t) auto

lemma merge_entry_no_id: "\<not> has_id e \<Longrightarrow> merge_entry e acc = acc"
  by (auto simp: has_id_def merge_entry_def split: option.splits)

lemma merge_entry_drop_empty: "merge_entry (drop_empty_values e) acc = merge_entry e acc"
  by (simp add: merge_entry_def drop_empty_values_def get_or_empty_def merge_values_filter
      split: option.splits)

lemma map_of_merge_entry:
  "has_id e \<Longrightarrow> in_KB e = Some kb \<Longrightarrow>
   map_of (merge_entry e acc) k =
     (if k = kb then
        Some (let target = (case map_of acc kb of Some t \<Rightarrow> t
                 | None \<Rightarrow> \<lparr>KB = kb, Months = [], Cves = [], Supersedes = [], UpdateType = None\<rparr>)
              in target\<lparr>Months := merge_values (Months target) (get_or_empty (in_Months e)),
                     Cves := merge_values (Cves target) (get_or_empty (in_Cves e)),
                     Supersedes := merge_values (Supersedes target) (get_or_empty (in_Supersedes e))\<rparr>)
      else map_of acc k)"
  by (simp add: has_id_def merge_entry_def update_conv' Let_def)

lemma field_of_merge_entry:
  "set (field_of Months (merge_entry e acc) k) = set (field_of Months acc k) \<union> merged_in in_Months k [e]"
  "set (field_of Cves (merge_entry e acc) k) = set (field_of Cves acc k) \<union> merged_in in_Cves k [e]"
  "set (field_of Supersedes (merge_entry e acc) k)
     = set (field_of Supersedes acc k) \<union> merged_in in_Supersedes k [e]"
proof -
  show "set (field_of Months (merge_entry e acc) k) = set (field_of Months acc k) \<union> merged_in in_Months k [e]"
  proof (cases "has_id e")
    case False
    then show ?thesis by (auto simp: merge_entry_no_id merged_in_def has_id_def split: option.splits)
  next
    case True
    then obtain kb where kb: "in_KB e = Some kb" "kb \<noteq> []" by (auto simp: has_id_def split: option.splits)
    show ?thesis
      by (auto simp: field_of_def map_of_merge_entry[OF True kb(1)] Let_def set_merge_values
          merged_in_def kb split: option.splits)
  qed
  show "set (field_of Cves (merge_entry e acc) k) = set (field_of Cves acc k) \<union> merged_in in_Cves k [e]"
  proof (cases "has_id e")
    case False
    then show ?thesis by (auto simp: merge_entry_no_id merged_in_def has_id_def split: option.splits)
  next
    case True
    then obtain kb where kb: "in_KB e = Some kb" "kb \<noteq> []" by (auto simp: has_id_def split: option.splits)
    show ?thesis
      by (auto simp: field_of_def map_of_merge_entry[OF True kb(1)] Let_def set_merge_values
          merged_in_def kb split: option.splits)
  qed
  show "set (field_of Supersedes (merge_entry e acc) k)
     = set (field_of Supersedes acc k) \<union> merged_in in_Supersedes k [e]"
  proof (cases "has_id e")
    case False
    then show ?thesis by (auto simp: merge_entry_no_id merged_in_def has_id_def split: option.splits)
  next
    case True
    then obtain kb where kb: "in_KB e = Some kb" "kb \<noteq> []" by (auto simp: has_id_def split: option.splits)
    show ?thesis
      by (auto simp: field_of_def map_of_merge_entry[OF True kb(1)] Let_def set_merge_values
          merged_in_def kb split: option.splits)
  qed
qed

lemma merged_in_Cons: "merged_in sel k (e # es) = merged_in sel k [e] \<union> merged_in sel k es"
  by (auto simp: merged_in_def)

lemma field_of_merge_kb_entries:
  "set (field_of Months (merge_kb_entries acc incoming) k) = set (field_of Months acc k) \<union> merged_in in_Months k incoming"
  "set (field_of Cves (merge_kb_entries acc incoming) k) = set (field_of Cves acc k) \<union> merged_in in_Cves k incoming"
  "set (field_of Supersedes (merge_kb_entries acc incoming) k)
     = set (field_of Supersedes acc k) \<union> merged_in in_Supersedes k incoming"
proof -
  show "set (field_of Months (merge_kb_entries acc incoming) k) = set (field_of Months acc k) \<union> merged_in in_Months k incoming"
  proof (induction incoming arbitrary: acc)
    case Nil
    then show ?case by (simp add: merge_kb_entries_def merged_in_def)
  next
    case (Cons e es)
    have "merge_kb_entries acc (e # es) = merge_kb_entries (merge_entry e acc) es"
      by (simp add: merge_kb_entries_def)
    then show ?case
      using Cons.IH[of "merge_entry e acc"] field_of_merge_entry(1)[of e acc k]
        merged_in_Cons[of in_Months k e es] by auto
  qed
  show "set (field_of Cves (merge_kb_entries acc incoming) k) = set (field_of Cves acc k) \<union> merged_in in_Cves k incoming"
  proof (induction incoming arbitrary: acc)
    case Nil
    then show ?case by (simp add: merge_kb_entries_def merged_in_def)
  next
    case (Cons e es)
    have "merge_kb_entries acc (e # es) = merge_kb_entries (merge_entry e acc) es"
      by (simp add: merge_kb_entries_def)
    then show ?case
      using Cons.IH[of "merge_entry e acc"] field_of_merge_entry(2)[of e acc k]
        merged_in_Cons[of in_Cves k e es] by auto
  qed
  show "set (field_of Supersedes (merge_kb_entries acc incoming) k)
     = set (field_of Supersedes acc k) \<union> merged_in in_Supersedes k incoming"
  proof (induction incoming arbitrary: acc)
    case Nil
    then show ?case by (simp add: merge_kb_entries_def merged_in_def)
  next
    case (Cons e es)
    have "merge_kb_entries acc (e # es) = merge_kb_entries (merge_entry e acc) es"
      by (simp add: merge_kb_entries_def)
    then show ?case
      using Cons.IH[of "merge_entry e acc"] field_of_merge_entry(3)[of e acc k]
        merged_in_Cons[of in_Supersedes k e es] by auto
  qed
qed

lemma fields_distinct_merge_entry: "fields_distinct acc \<Longrightarrow> fields_distinct (merge_entry e acc)"
proof (cases "has_id e")
  case False
  assume "fields_distinct acc"
  then show ?thesis using False by (simp add: merge_entry_no_id)
next
  case True
  assume d: "fields_distinct acc"
  from True obtain kb where kb: "in_KB e = Some kb" by (auto simp: has_id_def split: option.splits)
  show ?thesis
    unfolding fields_distinct_def
  proof (intro allI impI)
    fix k r assume "map_of (merge_entry e acc) k = Some r"
    then show "distinct (Months r) \<and> distinct (Cves r) \<and> distinct (Supersedes r)"
      using d unfolding fields_distinct_def map_of_merge_entry[OF True kb] Let_def
      by (auto simp: distinct_merge_values split: if_splits option.splits)
  qed
qed

lemma fields_distinct_merge: "fields_distinct acc \<Longrightarrow> fields_distinct (merge_kb_entries acc incoming)"
  unfolding merge_kb_entries_def
  by (induction incoming arbitrary: acc) (auto simp: fields_distinct_merge_entry)

lemma merge_kb_entries_filter:
  "merge_kb_entries acc (filter has_id incoming) = merge_kb_entries acc incoming"
  unfolding merge_kb_entries_def
  by (induction incoming arbitrary: acc) (auto simp: merge_entry_no_id)

lemma merge_kb_entries_drop_empty:
  "merge_kb_entries acc (map drop_empty_values incoming) = merge_kb_entries acc incoming"
  unfolding merge_kb_entries_def
  by (induction incoming arbitrary: acc) (auto simp: merge_entry_drop_empty)


lemma merged_in_set_cong: "set incoming = set incoming' \<Longrightarrow> merged_in sel k incoming = merged_in sel k incoming'"
  by (simp add: merged_in_def)

lemma sort_remdups_empty: "(sort (remdups xs) = []) = (set xs = {})"
proof -
  have "set (sort (remdups xs)) = set xs" by simp
  then show ?thesis by (metis set_empty)
qed

lemma finalize_entry_fields:
  "set (Months (finalize_entry r)) = set (Months r)"
  "set (Cves (finalize_entry r)) = set (Cves r)"
  "set (Supersedes (finalize_entry r)) = set (Supersedes r)"
  "distinct (Months (finalize_entry r))"
  "distinct (Cves (finalize_entry r))"
  "distinct (Supersedes (finalize_entry r))"
  "UpdateType (finalize_entry r) = Some (if set (Supersedes r) \<noteq> {} then ''Superseding'' else ''Standalone'')"
  by (simp_all add: finalize_entry_def Let_def sort_remdups_empty del: set_empty)

text \<open>
  Claim C6. After a batch is merged, each of the three lists under an identifier holds
  exactly what it held before together with the non-empty values the batch brings for that
  identifier: nothing is removed, the result does not depend on the order of the batch,
  and duplicate-free lists stay duplicate-free. The finalisation keeps the three sets, makes
  the lists duplicate-free and sets the classification to \<open>Superseding\<close> exactly when the
  superseded set is not empty, else to \<open>Standalone\<close>.
\<close>

theorem merge_unions_fields_and_classifies:
  "set (field_of Months (merge_kb_entries existing incoming) k)
     = set (field_of Months existing k) \<union> merged_in in_Months k incoming
   \<and> set (field_of Cves (merge_kb_entries existing incoming) k)
     = set (field_of Cves existing k) \<union> merged_in in_Cves k incoming
   \<and> set (field_of Supersedes (merge_kb_entries existing incoming) k)
     = set (field_of Supersedes existing k) \<union> merged_in in_Supersedes k incoming
   \<and> (fields_distinct existing \<longrightarrow> fields_distinct (merge_kb_entries existing incoming))
   \<and> (set incoming = set incoming' \<longrightarrow>
        set (field_of Months (merge_kb_entries existing incoming) k)
          = set (field_of Months (merge_kb_entries existing incoming') k)
        \<and> set (field_of Cves (merge_kb_entries existing incoming) k)
          = set (field_of Cves (merge_kb_entries existing incoming') k)
        \<and> set (field_of Supersedes (merge_kb_entries existing incoming) k)
          = set (field_of Supersedes (merge_kb_entries existing incoming') k))
   \<and> set (Months (finalize_entry r)) = set (Months r)
   \<and> set (Cves (finalize_entry r)) = set (Cves r)
   \<and> set (Supersedes (finalize_entry r)) = set (Supersedes r)
   \<and> distinct (Months (finalize_entry r))
   \<and> distinct (Cves (finalize_entry r))
   \<and> distinct (Supersedes (finalize_entry r))
   \<and> UpdateType (finalize_entry r)
       = Some (if set (Supersedes r) \<noteq> {} then ''Superseding'' else ''Standalone'')"
  by (simp only: field_of_merge_kb_entries finalize_entry_fields simp_thms)
     (auto simp: fields_distinct_merge dest: merged_in_set_cong)

theorem merge_unions_fields_and_classifies_witness:
  "finalize_entries (merge_kb_entries []
     [\<lparr>in_KB = Some ''X'', in_Months = Some [''2024-Jan''], in_Cves = Some [''V1''], in_Supersedes = Some []\<rparr>,
      \<lparr>in_KB = Some ''X'', in_Months = Some [''2024-Jan'', ''2024-Feb''], in_Cves = Some [], in_Supersedes = Some [''Y'']\<rparr>])
   = [\<lparr>KB = ''X'', Months = [''2024-Feb'', ''2024-Jan''], Cves = [''V1''], Supersedes = [''Y''],
        UpdateType = Some ''Superseding''\<rparr>]
   \<and> set (field_of Months (merge_kb_entries []
     [\<lparr>in_KB = Some ''X'', in_Months = Some [''2024-Jan''], in_Cves = Some [''V1''], in_Supersedes = Some []\<rparr>,
      \<lparr>in_KB = Some ''X'', in_Months = Some [''2024-Jan'', ''2024-Feb''], in_Cves = Some [], in_Supersedes = Some [''Y'']\<rparr>]) ''X'') = {''2024-Jan'', ''2024-Feb''}
   \<and> set (field_of Cves (merge_kb_entries []
     [\<lparr>in_KB = Some ''X'', in_Months = Some [''2024-Jan''], in_Cves = Some [''V1''], in_Supersedes = Some []\<rparr>,
      \<lparr>in_KB = Some ''X'', in_Months = Some [''2024-Jan'', ''2024-Feb''], in_Cves = Some [], in_Supersedes = Some [''Y'']\<rparr>]) ''X'') = {''V1''}
   \<and> set (field_of Supersedes (merge_kb_entries []
     [\<lparr>in_KB = Some ''X'', in_Months = Some [''2024-Jan''], in_Cves = Some [''V1''], in_Supersedes = Some []\<rparr>,
      \<lparr>in_KB = Some ''X'', in_Months = Some [''2024-Jan'', ''2024-Feb''], in_Cves = Some [], in_Supersedes = Some [''Y'']\<rparr>]) ''X'') = {''Y''}"
  (is "?F \<and> set (field_of Months (merge_kb_entries [] ?inc) ''X'') = ?M \<and> _ = ?C \<and> _ = ?S")
proof (intro conjI)
  show ?F by code_simp
  have m: "set (field_of Months [] ''X'') \<union> merged_in in_Months ''X'' ?inc = ?M"
    by (auto simp: field_of_def merged_in_def get_or_empty_def)
  have c: "set (field_of Cves [] ''X'') \<union> merged_in in_Cves ''X'' ?inc = ?C"
    by (auto simp: field_of_def merged_in_def get_or_empty_def)
  have s: "set (field_of Supersedes [] ''X'') \<union> merged_in in_Supersedes ''X'' ?inc = ?S"
    by (auto simp: field_of_def merged_in_def get_or_empty_def)
  note t = merge_unions_fields_and_classifies[of "[]" ?inc "''X''"]
  show "set (field_of Months (merge_kb_entries [] ?inc) ''X'') = ?M"
    using t m by (simp only:)
  show "set (field_of Cves (merge_kb_entries [] ?inc) ''X'') = ?C"
    using t c by (simp only:)
  show "set (field_of Supersedes (merge_kb_entries [] ?inc) ''X'') = ?S"
    using t s by (simp only:)
qed

text \<open>
  Claim C10. \<open>merge_kb_entries\<close> is a total function with no error result. A partial
  record whose identifier is missing or empty leaves the accumulator as it is, so a batch
  merges like the batch without such records; and empty values inside the three arrays
  are passed over, so a batch merges like the batch with its empty values removed.
\<close>

theorem merge_skips_missing_ids_and_empty_values:
  "(in_KB e = None \<or> in_KB e = Some [] \<longrightarrow> merge_entry e existing = existing)
   \<and> merge_kb_entries existing (filter has_id incoming) = merge_kb_entries existing incoming
   \<and> merge_kb_entries existing (map drop_empty_values incoming) = merge_kb_entries existing incoming"
proof (intro conjI impI)
  assume "in_KB e = None \<or> in_KB e = Some []"
  then have "\<not> has_id e" by (auto simp: has_id_def)
  then show "merge_entry e existing = existing" by (rule merge_entry_no_id)
qed (rule merge_kb_entries_filter, rule merge_kb_entries_drop_empty)

theorem merge_skips_missing_ids_and_empty_values_witness:
  "merge_kb_entries []
     [\<lparr>in_KB = None, in_Months = Some [''2024-Jan''], in_Cves = None, in_Supersedes = None\<rparr>,
      \<lparr>in_KB = Some [], in_Months = Some [''2024-Jan''], in_Cves = None, in_Supersedes = None\<rparr>,
      \<lparr>in_KB = Some ''X'', in_Months = Some [[], ''2024-Jan''], in_Cves = Some [''V1'', []],
        in_Supersedes = None\<rparr>]
   = [(''X'', \<lparr>KB = ''X'', Months = [''2024-Jan''], Cves = [''V1''], Supersedes = [],
               UpdateType = None\<rparr>)]
   \<and> merge_entry
        \<lparr>in_KB = Some [], in_Months = Some [''2024-Jan''], in_Cves = None, in_Supersedes = None\<rparr>
        [(''X'', \<lparr>KB = ''X'', Months = [''2024-Jan''], Cves = [''V1''], Supersedes = [],
               UpdateType = None\<rparr>)]
      = [(''X'', \<lparr>KB = ''X'', Months = [''2024-Jan''], Cves = [''V1''], Supersedes = [],
               UpdateType = None\<rparr>)]"
  (is "?A \<and> merge_entry ?e ?acc = ?acc")
proof
  show ?A by code_simp
  have "in_KB ?e = None \<or> in_KB ?e = Some []" by simp
  then show "merge_entry ?e ?acc = ?acc"
    by (rule merge_skips_missing_ids_and_empty_values[THEN conjunct1, THEN mp])
qed


section \<open>Properties of the correlation table\<close>

lemma dom_build_kb_index_aux:
  "fst ` set (fold (\<lambda>entry kb_index. if KB entry \<noteq> [] then AList.update (KB entry) entry kb_index
                             else kb_index) es idx)
     = fst ` set idx \<union> {k. k \<noteq> [] \<and> k \<in> KB ` set es}"
proof (induction es arbitrary: idx)
  case Nil
  then show ?case by simp
next
  case (Cons e es)
  show ?case
  proof (cases "KB e = []")
    case True
    have "{k. k \<noteq> [] \<and> k \<in> KB ` set (e # es)} = {k. k \<noteq> [] \<and> k \<in> KB ` set es}"
      using True by auto
    then show ?thesis using True by (simp add: Cons.IH del: image_insert)
  next
    case False
    have "{k. k \<noteq> [] \<and> k \<in> KB ` set (e # es)} = insert (KB e) {k. k \<noteq> [] \<and> k \<in> KB ` set es}"
      using False by auto
    then show ?thesis using False by (simp add: Cons.IH dom_update del: image_insert)
  qed
qed

lemma keys_build_kb_index:
  "fst ` set (build_kb_index es) = {k. k \<noteq> [] \<and> k \<in> KB ` set es}"
  by (simp add: build_kb_index_def dom_build_kb_index_aux)

lemma map_of_build_kb_index_None:
  "(map_of (build_kb_index es) k = None) = (k = [] \<or> k \<notin> KB ` set es)"
proof -
  have "(map_of (build_kb_index es) k = None) = (k \<notin> fst ` set (build_kb_index es))"
    by (simp add: map_of_eq_None_iff)
  then show ?thesis by (simp add: keys_build_kb_index)
qed


lemma kb_rows_Cons:
  "kb_rows idx inst lp sb kb \<noteq> []
   \<and> fst (hd (kb_rows idx inst lp sb kb)) = kb
   \<and> fst (snd (snd (hd (kb_rows idx inst lp sb kb)))) = kb_status inst lp sb kb
   \<and> (\<forall>row \<in> set (tl (kb_rows idx inst lp sb kb)).
         fst row = [] \<and> fst (snd row) = [] \<and> fst (snd (snd row)) = [])"
proof -
  define entry where "entry = (case map_of idx kb of Some e \<Rightarrow> e
        | None \<Rightarrow> \<lparr>KB = kb, Months = [], Cves = [], Supersedes = [], UpdateType = Some ''Unmapped''\<rparr>)"
  define months where "months = (if Months entry = [] then [[]] else Months entry)"
  define cves where "cves = (if Cves entry = [] then [[]] else Cves entry)"
  define height where "height = max (length months) (length cves)"
  define f where "f = (\<lambda>i. (if i = 0 then kb else [],
                 if i = 0 then (case UpdateType entry of None \<Rightarrow> [] | Some u \<Rightarrow> u) else [],
                 if i = 0 then kb_status inst lp sb kb else [],
                 if i < length months then months ! i else [],
                 if i < length cves then cves ! i else []))"
  have "0 < length months" by (simp add: months_def)
  then have h: "0 < height" unfolding height_def by (simp only: less_max_iff_disj simp_thms)
  then have upt: "[0 ..< height] = 0 # [1 ..< height]" by (simp add: upt_conv_Cons)
  have "kb_rows idx inst lp sb kb = map f [0 ..< height]"
    unfolding kb_rows_def Let_def f_def height_def cves_def months_def entry_def by (rule refl)
  then have eq: "kb_rows idx inst lp sb kb = f 0 # map f [1 ..< height]"
    by (simp only: upt list.map)
  have f0: "fst (f 0) = kb" "fst (snd (snd (f 0))) = kb_status inst lp sb kb"
    by (simp_all add: f_def)
  have rest: "\<forall>row \<in> set (map f [1 ..< height]). fst row = [] \<and> fst (snd row) = [] \<and> fst (snd (snd row)) = []"
    by (auto simp: f_def)
  show ?thesis unfolding eq using f0 rest by simp
qed

lemma kb_rows_unmapped:
  "map_of idx kb = None \<Longrightarrow>
   kb_rows idx inst lp sb kb = [(kb, ''Unmapped'', kb_status inst lp sb kb, [], [])]"
  by (simp add: kb_rows_def)

lemma all_kbs_set:
  "finite lp \<Longrightarrow> set (all_kbs idx inst lp) = fst ` set idx \<union> set inst \<union> lp
      \<and> sorted (all_kbs idx inst lp) \<and> distinct (all_kbs idx inst lp)"
  by (simp add: all_kbs_def)


text \<open>
  Claim C7, as amended. For every identifier the block of rows the reporter prints is not
  empty; its first row carries the identifier and the status, and the other rows leave
  the identifier, type and status cells empty. The status is \<open>Installed\<close> if the
  identifier is installed; else \<open>Superseded\<close>, followed by the list of roots when that
  list is not empty, if it is logically present; else \<open>Missing\<close>. An identifier with no
  canonical record (an identifier that is empty or that no record bears) gets one row whose
  type cell is \<open>Unmapped\<close> and whose period and vulnerability cells are empty. The table
  has one block for each identifier of the union, in sorted order.
\<close>

theorem correlation_status_precedence:
  "kb_status installed_kbs lp sb kb_id =
      (if kb_id \<in> set installed_kbs then ''Installed''
       else if kb_id \<in> lp then
         (case sb kb_id of
            None \<Rightarrow> ''Superseded''
          | Some roots \<Rightarrow>
              if roots = [] then ''Superseded'' else ''Superseded ('' @ join '', '' roots @ '')'')
       else ''Missing'')
   \<and> kb_rows (build_kb_index kb_entries) installed_kbs lp sb kb_id \<noteq> []
   \<and> fst (hd (kb_rows (build_kb_index kb_entries) installed_kbs lp sb kb_id)) = kb_id
   \<and> fst (snd (snd (hd (kb_rows (build_kb_index kb_entries) installed_kbs lp sb kb_id))))
       = kb_status installed_kbs lp sb kb_id
   \<and> (\<forall>row \<in> set (tl (kb_rows (build_kb_index kb_entries) installed_kbs lp sb kb_id)).
         fst row = [] \<and> fst (snd row) = [] \<and> fst (snd (snd row)) = [])
   \<and> (kb_id = [] \<or> kb_id \<notin> KB ` set kb_entries \<longrightarrow>
        kb_rows (build_kb_index kb_entries) installed_kbs lp sb kb_id
          = [(kb_id, ''Unmapped'', kb_status installed_kbs lp sb kb_id, [], [])])
   \<and> (finite lp \<longrightarrow>
        set (all_kbs (build_kb_index kb_entries) installed_kbs lp)
          = {k. k \<noteq> [] \<and> k \<in> KB ` set kb_entries} \<union> set installed_kbs \<union> lp
        \<and> sorted (all_kbs (build_kb_index kb_entries) installed_kbs lp)
        \<and> distinct (all_kbs (build_kb_index kb_entries) installed_kbs lp))"
proof (intro conjI impI)
  show "kb_status installed_kbs lp sb kb_id =
      (if kb_id \<in> set installed_kbs then ''Installed''
       else if kb_id \<in> lp then
         (case sb kb_id of
            None \<Rightarrow> ''Superseded''
          | Some roots \<Rightarrow>
              if roots = [] then ''Superseded'' else ''Superseded ('' @ join '', '' roots @ '')'')
       else ''Missing'')"
    by (simp add: kb_status_def Let_def split: option.split)
next
  assume "kb_id = [] \<or> kb_id \<notin> KB ` set kb_entries"
  then have "map_of (build_kb_index kb_entries) kb_id = None"
    by (simp only: map_of_build_kb_index_None)
  then show "kb_rows (build_kb_index kb_entries) installed_kbs lp sb kb_id
          = [(kb_id, ''Unmapped'', kb_status installed_kbs lp sb kb_id, [], [])]"
    by (rule kb_rows_unmapped)
next
  assume f: "finite lp"
  show "set (all_kbs (build_kb_index kb_entries) installed_kbs lp)
          = {k. k \<noteq> [] \<and> k \<in> KB ` set kb_entries} \<union> set installed_kbs \<union> lp"
    using all_kbs_set[OF f, of "build_kb_index kb_entries" installed_kbs]
    by (simp only: keys_build_kb_index)
  show "sorted (all_kbs (build_kb_index kb_entries) installed_kbs lp)"
    using all_kbs_set[OF f] by blast
  show "distinct (all_kbs (build_kb_index kb_entries) installed_kbs lp)"
    using all_kbs_set[OF f] by blast
next
  note r = kb_rows_Cons[of "build_kb_index kb_entries" installed_kbs lp sb kb_id]
  show "kb_rows (build_kb_index kb_entries) installed_kbs lp sb kb_id \<noteq> []"
    by (rule r[THEN conjunct1])
  show "fst (hd (kb_rows (build_kb_index kb_entries) installed_kbs lp sb kb_id)) = kb_id"
    by (rule r[THEN conjunct2, THEN conjunct1])
  show "fst (snd (snd (hd (kb_rows (build_kb_index kb_entries) installed_kbs lp sb kb_id))))
       = kb_status installed_kbs lp sb kb_id"
    by (rule r[THEN conjunct2, THEN conjunct2, THEN conjunct1])
  show "\<forall>row \<in> set (tl (kb_rows (build_kb_index kb_entries) installed_kbs lp sb kb_id)).
         fst row = [] \<and> fst (snd row) = [] \<and> fst (snd (snd row)) = []"
    by (rule r[THEN conjunct2, THEN conjunct2, THEN conjunct2])
qed

theorem correlation_status_precedence_witness:
  "kb_rows (build_kb_index [\<lparr>KB = ''KB2'', Months = [''2024-Jan''], Cves = [''CVE-1''], Supersedes = [],
         UpdateType = Some ''Standalone''\<rparr>,
       \<lparr>KB = ''KB3'', Months = [''2024-Feb''], Cves = [''CVE-2''], Supersedes = [''KB2''],
         UpdateType = Some ''Superseding''\<rparr>]) [''KB3'', ''KB9''] {''KB2'', ''KB3'', ''KB9''} [''KB2'' \<mapsto> [''KB3'']] ''KB9''
     = [(''KB9'', ''Unmapped'', ''Installed'', [], [])]
   \<and> kb_rows (build_kb_index [\<lparr>KB = ''KB2'', Months = [''2024-Jan''], Cves = [''CVE-1''], Supersedes = [],
         UpdateType = Some ''Standalone''\<rparr>,
       \<lparr>KB = ''KB3'', Months = [''2024-Feb''], Cves = [''CVE-2''], Supersedes = [''KB2''],
         UpdateType = Some ''Superseding''\<rparr>]) [''KB3'', ''KB9''] {''KB2'', ''KB3'', ''KB9''} [''KB2'' \<mapsto> [''KB3'']] ''KB2''
     = [(''KB2'', ''Standalone'', ''Superseded (KB3)'', ''2024-Jan'', ''CVE-1'')]
   \<and> kb_status [''KB3'', ''KB9''] {''KB2'', ''KB3'', ''KB9''} [''KB2'' \<mapsto> [''KB3'']] ''KB4'' = ''Missing''"
  (is "kb_rows (build_kb_index ?es) ?inst ?lp ?sb ''KB9'' = ?r9 \<and> ?B \<and> ?C")
proof (intro conjI)
  have h: "''KB9'' = [] \<or> ''KB9'' \<notin> KB ` set ?es" by simp
  have st: "kb_status ?inst ?lp ?sb ''KB9'' = ''Installed''" by code_simp
  have "kb_rows (build_kb_index ?es) ?inst ?lp ?sb ''KB9''
          = [(''KB9'', ''Unmapped'', kb_status ?inst ?lp ?sb ''KB9'', [], [])]"
    using h by (rule correlation_status_precedence[THEN conjunct2, THEN conjunct2, THEN conjunct2,
          THEN conjunct2, THEN conjunct2, THEN conjunct1, THEN mp])
  then show "kb_rows (build_kb_index ?es) ?inst ?lp ?sb ''KB9'' = ?r9" by (simp only: st)
  show ?B by code_simp
  show ?C by code_simp
qed

text \<open>
  Claim C7 as the specification states it fails on an installed identifier that has no
  canonical record: its row says \<open>Unmapped\<close> in the type column only, the period and
  vulnerability columns are empty.
\<close>

theorem correlation_unmapped_counterexample:
  "kb_rows (build_kb_index []) [''KB5000001''] {''KB5000001''} Map.empty ''KB5000001''
     = [(''KB5000001'', ''Unmapped'', ''Installed'', [], [])]
   \<and> print_kb_table [] [''KB5000001''] {''KB5000001''} Map.empty
     = [''=== Correlation ==='',
        ''KB          Type         Status                                   Months               CVEs'',
        replicate 110 (CHR ''-''),
        ''KB5000001   Unmapped     Installed                                                     '',
        replicate 110 (CHR ''-'')]"
  by code_simp


end
